theory Spec2Isabelle
  imports Complex_Main "HOL-Library.Sublist" "HOL-Library.Log_Nat"
begin

section \<open>raid-helper: status parsing, progress bar and the reboot poll loop\<close>

text \<open>
  A shallow embedding of \<^verbatim>\<open>main.go\<close>. Go strings are byte strings (\<open>string\<close>, a
  \<open>char list\<close>) and Go \<^verbatim>\<open>int\<close> is \<open>int\<close> (no value below gets near 64 bits).

  The two functions that compute with \<^verbatim>\<open>float64\<close> are given twice. \<open>scanProgress\<close>,
  \<open>getMdProgress\<close>, \<open>barCompleted\<close> and \<open>drawProgressBar\<close> keep the arithmetic of the
  source over the reals and leave the rounding out. \<open>scanProgress_f64\<close>,
  \<open>getMdProgress_f64\<close>, \<open>barCompleted_f64\<close> and \<open>drawProgressBar_f64\<close> are the same
  code with every conversion, product and quotient rounded to the nearest binary64
  number, ties to even (\<open>f64_round\<close>). What the percentage is exactly, and how many fill
  characters the bar has exactly, is stated of the rounded functions.
\<close>

subsection \<open>What one pass over \<^verbatim>\<open>/proc/mdstat\<close> delivers\<close>

text \<open>
  Every reader opens the file and walks it with a \<^verbatim>\<open>bufio.Scanner\<close>. Either
  \<^verbatim>\<open>os.Open\<close> fails, or the scanner hands out lines (without their terminators) one
  after the other and then stops; \<^verbatim>\<open>scanner.Err()\<close> is non-nil exactly when the flag
  \<open>scan_err\<close> is set (a failed read, a line beyond the scanner's token limit).
\<close>

datatype mdstat = OpenFails | Scanned (scanned_lines: "string list") (scan_err: bool)

datatype error =
    FailedToOpen
  | FailedToRead
  | NoProgressInformation
  | RebootFailed

datatype panic = NegativeRepeatCount

subsection \<open>Library functions the source calls\<close>

text \<open>\<^verbatim>\<open>strings.Contains(s, substr)\<close>: some suffix of \<open>s\<close> starts with \<open>substr\<close>.\<close>

fun Contains :: "string \<Rightarrow> string \<Rightarrow> bool" where
  "Contains [] substr = (substr = [])"
| "Contains (c # cs) substr = (prefix substr (c # cs) \<or> Contains cs substr)"

text \<open>\<^verbatim>\<open>strings.Repeat(s, count)\<close> panics on a negative count.\<close>

definition Repeat :: "string \<Rightarrow> int \<Rightarrow> panic + string" where
  "Repeat s count =
     (if count < 0 then Inl NegativeRepeatCount else Inr (concat (replicate (nat count) s)))"

text \<open>The conversion \<^verbatim>\<open>int(x)\<close> of a float truncates towards zero.\<close>

definition float64_to_int :: "real \<Rightarrow> int" where
  "float64_to_int x = (if 0 \<le> x then \<lfloor>x\<rfloor> else \<lceil>x\<rceil>)"

subsection \<open>The two regular expressions\<close>

text \<open>
  \<^verbatim>\<open>\[([=>\.]+)\]\<close>: an opening bracket, a non-empty run of \<open>=\<close>, \<open>>\<close>, \<open>.\<close>, a closing
  bracket. The closing bracket is outside the class, so the greedy run is the whole run
  and no shorter one can match. \<open>progressRe_at\<close> is the match anchored at the head of the
  string; \<open>progressRe_FindStringSubmatch\<close> is the leftmost match, as the slice
  \<open>[whole match, group 1]\<close>, empty (nil) without a match.
\<close>

definition isProgressChar :: "char \<Rightarrow> bool" where
  "isProgressChar c = (c = CHR ''='' \<or> c = CHR ''>'' \<or> c = CHR ''.'')"

fun progressRe_at :: "string \<Rightarrow> string option" where
  "progressRe_at [] = None"
| "progressRe_at (c # cs) =
     (if c = CHR ''['' then
        (let g = takeWhile isProgressChar cs; rest = dropWhile isProgressChar cs
         in if g \<noteq> [] \<and> prefix '']'' rest then Some g else None)
      else None)"

fun progressRe_FindStringSubmatch :: "string \<Rightarrow> string list" where
  "progressRe_FindStringSubmatch [] = []"
| "progressRe_FindStringSubmatch (c # cs) =
     (case progressRe_at (c # cs) of
        Some g \<Rightarrow> [''['' @ g @ '']'', g]
      | None \<Rightarrow> progressRe_FindStringSubmatch cs)"

text \<open>
  \<^verbatim>\<open>finish=([^\\s]+)\<close>, written in a raw string literal: the pattern holds two
  backslashes, so the class is "any character but a backslash and the letter s".
  The group is the non-empty greedy run of such characters after \<open>finish=\<close>.
\<close>

definition isFinishChar :: "char \<Rightarrow> bool" where
  "isFinishChar c = (c \<noteq> CHR 0x5C \<and> c \<noteq> CHR ''s'')"

definition finishRe_at :: "string \<Rightarrow> string option" where
  "finishRe_at s =
     (if prefix ''finish='' s then
        (let g = takeWhile isFinishChar (drop 7 s)
         in if g \<noteq> [] then Some g else None)
      else None)"

fun finishRe_FindStringSubmatch :: "string \<Rightarrow> string list" where
  "finishRe_FindStringSubmatch [] = []"
| "finishRe_FindStringSubmatch (c # cs) =
     (case finishRe_at (c # cs) of
        Some g \<Rightarrow> [''finish='' @ g, g]
      | None \<Rightarrow> finishRe_FindStringSubmatch cs)"

subsection \<open>getMdChecking\<close>

fun countChecking :: "string list \<Rightarrow> int \<Rightarrow> int" where
  "countChecking [] count = count"
| "countChecking (text # rest) count =
     countChecking rest (if Contains text ''check'' then count + 1 else count)"

fun getMdChecking :: "mdstat \<Rightarrow> error + int" where
  "getMdChecking OpenFails = Inl FailedToOpen"
| "getMdChecking (Scanned ls err) =
     (let count = countChecking ls 0
      in if err then Inl FailedToRead else Inr count)"

subsection \<open>getMdProgress\<close>

text \<open>
  The loop returns from inside at the first line that holds a marker and a match; only
  when it runs to the end is the scanner's error looked at.
\<close>

fun scanProgress :: "string list \<Rightarrow> real option" where
  "scanProgress [] = None"
| "scanProgress (line # rest) =
     (if Contains line ''check'' \<or> Contains line ''resync'' then
        (let matches = progressRe_FindStringSubmatch line
         in if length matches > 1 then
              (let progress = matches ! 1;
                   completed = count_list progress (CHR ''='') + count_list progress (CHR ''>'');
                   total = length progress
               in Some (real completed / real total * 100))
            else scanProgress rest)
      else scanProgress rest)"

fun getMdProgress :: "mdstat \<Rightarrow> error + real" where
  "getMdProgress OpenFails = Inl FailedToOpen"
| "getMdProgress (Scanned ls err) =
     (case scanProgress ls of
        Some p \<Rightarrow> Inr p
      | None \<Rightarrow> if err then Inl FailedToRead else Inl NoProgressInformation)"

subsection \<open>drawProgressBar\<close>

text \<open>
  \<open>barCompleted\<close> and \<open>barRemaining\<close> are the two counts handed to
  \<^verbatim>\<open>strings.Repeat\<close>. The verb \<^verbatim>\<open>%.1f\<close> of \<^verbatim>\<open>fmt.Sprintf\<close> is the parameter
  \<open>fmt_f1\<close>.
\<close>

definition barCompleted :: "real \<Rightarrow> int \<Rightarrow> int" where
  "barCompleted percent width = float64_to_int (real_of_int width * percent / 100)"

definition barRemaining :: "real \<Rightarrow> int \<Rightarrow> int" where
  "barRemaining percent width =
     (let remaining = width - barCompleted percent width
      in if remaining > 0 then remaining - 1 else remaining)"

definition drawProgressBar :: "(real \<Rightarrow> string) \<Rightarrow> real \<Rightarrow> int \<Rightarrow> panic + string" where
  "drawProgressBar fmt_f1 percent width =
     (let completed = barCompleted percent width;
          remaining = width - completed
      in case Repeat ''='' completed of
           Inl p \<Rightarrow> Inl p
         | Inr bar \<Rightarrow>
             (let bar' = (if remaining > 0 then bar @ ''>'' else bar)
              in case Repeat ''.'' (barRemaining percent width) of
                   Inl p \<Rightarrow> Inl p
                 | Inr dots \<Rightarrow> Inr (''['' @ bar' @ dots @ ''] '' @ fmt_f1 percent @ ''%'')))"

subsection \<open>getMdTimeLeft\<close>

fun scanTimeLeft :: "string list \<Rightarrow> string option" where
  "scanTimeLeft [] = None"
| "scanTimeLeft (line # rest) =
     (if Contains line ''finish'' then
        (let matches = finishRe_FindStringSubmatch line
         in if length matches > 1 then Some (matches ! 1) else scanTimeLeft rest)
      else scanTimeLeft rest)"

fun getMdTimeLeft :: "mdstat \<Rightarrow> error + string" where
  "getMdTimeLeft OpenFails = Inl FailedToOpen"
| "getMdTimeLeft (Scanned ls err) =
     (case scanTimeLeft ls of
        Some t \<Rightarrow> Inr t
      | None \<Rightarrow> if err then Inl FailedToRead else Inr [])"

subsection \<open>Output, sleeping and process exit\<close>

text \<open>
  What a command does besides computing: the text it prints, what it logs, how long it
  sleeps (in seconds) and the \<^verbatim>\<open>reboot\<close> command it runs, in order. A command ends by
  returning, by \<^verbatim>\<open>log.Fatalf\<close> (message logged, exit status 1) or by a panic;
  \<open>StillPolling\<close> is a poll loop that has not ended within the iterations looked at.
  Successive opens of the status file may see different content: \<open>reads k\<close> is what the
  \<open>k\<close>-th open of a run delivers.
\<close>

datatype event =
    Print string
  | PrintTime
  | LogPrintf string error
  | Sleep nat
  | RunReboot

datatype exit =
    Returned
  | Fatal string error
  | Panicked panic
  | StillPolling

subsection \<open>The progress command\<close>

definition progressCmd :: "(real \<Rightarrow> string) \<Rightarrow> (nat \<Rightarrow> mdstat) \<Rightarrow> exit \<times> event list" where
  "progressCmd fmt_f1 reads =
     (case getMdChecking (reads 0) of
        Inl err \<Rightarrow> (Fatal ''Error checking RAID status'' err, [])
      | Inr count \<Rightarrow>
          if count = 0 then (Returned, [Print ''No RAID check in progress''])
          else
            (case getMdProgress (reads 1) of
               Inl err \<Rightarrow> (Fatal ''Error getting progress'' err, [])
             | Inr progress \<Rightarrow>
                 (let r = getMdTimeLeft (reads 2);
                      timeLeft = (case r of Inl err \<Rightarrow> [] | Inr t \<Rightarrow> t);
                      logged = (case r of Inl err \<Rightarrow> [LogPrintf ''Error getting time left'' err]
                                | Inr t \<Rightarrow> [])
                  in case drawProgressBar fmt_f1 progress 50 of
                       Inl p \<Rightarrow> (Panicked p, logged)
                     | Inr bar \<Rightarrow>
                         (Returned,
                          logged @ [Print bar] @
                          (if timeLeft \<noteq> [] then [Print (''Time remaining: '' @ timeLeft)]
                           else [])))))"

subsection \<open>waitForRaidAndReboot\<close>

definition readErrorBackoff :: nat where
  "readErrorBackoff = 10"

definition pollInterval :: nat where
  "pollInterval = 100"

definition clearScreen :: string where
  "clearScreen = CHR 0x1B # ''[2J'' @ CHR 0x1B # ''[H''"

datatype loop_exit = Break | OutOfFuel | LoopPanicked panic

text \<open>
  The \<^verbatim>\<open>for\<close> loop. The first argument bounds the iterations looked at; \<open>i\<close> is the
  number of opens of the status file so far and \<open>tr\<close> what has happened so far. One
  iteration opens the file once (read failure, or count 0) or three times (count,
  time left, progress).
\<close>

fun pollLoop ::
  "nat \<Rightarrow> (real \<Rightarrow> string) \<Rightarrow> (nat \<Rightarrow> mdstat) \<Rightarrow> nat \<Rightarrow> event list \<Rightarrow> loop_exit \<times> nat \<times> event list"
where
  "pollLoop 0 fmt_f1 reads i tr = (OutOfFuel, i, tr)"
| "pollLoop (Suc n) fmt_f1 reads i tr =
     (case getMdChecking (reads i) of
        Inl err \<Rightarrow>
          pollLoop n fmt_f1 reads (i + 1)
            (tr @ [LogPrintf ''Error checking RAID status'' err, Sleep readErrorBackoff])
      | Inr count \<Rightarrow>
          if count = 0 then (Break, i + 1, tr)
          else
            (let r = getMdTimeLeft (reads (i + 1));
                 timeLeft = (case r of Inl err \<Rightarrow> [] | Inr t \<Rightarrow> t);
                 tr1 = tr @ [Sleep pollInterval, Print clearScreen] @
                       (case r of Inl err \<Rightarrow> [LogPrintf ''Error getting time left'' err]
                        | Inr t \<Rightarrow> []) @
                       [PrintTime,
                        if timeLeft \<noteq> [] then Print (''Reboot will occur in '' @ timeLeft)
                        else Print ''Reboot will occur when RAID check completes'']
             in case getMdProgress (reads (i + 2)) of
                  Inl err \<Rightarrow> pollLoop n fmt_f1 reads (i + 3) tr1
                | Inr progress \<Rightarrow>
                    (case drawProgressBar fmt_f1 progress 50 of
                       Inl p \<Rightarrow> (LoopPanicked p, i + 3, tr1)
                     | Inr bar \<Rightarrow> pollLoop n fmt_f1 reads (i + 3) (tr1 @ [Print bar]))))"

text \<open>
  The whole function: the loop, then the final check. \<open>reboot_fails\<close> says whether
  running \<^verbatim>\<open>reboot\<close> returns an error. The parameter \<open>forced\<close> is not read by the
  source.
\<close>

definition waitForRaidAndReboot ::
  "nat \<Rightarrow> (real \<Rightarrow> string) \<Rightarrow> (nat \<Rightarrow> mdstat) \<Rightarrow> bool \<Rightarrow> bool \<Rightarrow> exit \<times> event list"
where
  "waitForRaidAndReboot fuel fmt_f1 reads reboot_fails forced =
     (case pollLoop fuel fmt_f1 reads 0 [] of
        (OutOfFuel, i, tr) \<Rightarrow> (StillPolling, tr)
      | (LoopPanicked p, i, tr) \<Rightarrow> (Panicked p, tr)
      | (Break, i, tr) \<Rightarrow>
          (case getMdChecking (reads i) of
             Inl err \<Rightarrow> (Fatal ''Error in final RAID check'' err, tr)
           | Inr count \<Rightarrow>
               if count = 0 then
                 (let tr' = tr @ [Print ''RAID check complete. Rebooting...'', RunReboot]
                  in if reboot_fails then (Fatal ''Error executing reboot'' RebootFailed, tr')
                     else (Returned, tr'))
               else (Returned, tr)))"

text \<open>
  What a run of \<open>n\<close> failed status reads, the opens \<open>i\<close> to \<open>i + n - 1\<close>, leaves
  behind: for each the logged error and the short sleep.
\<close>

definition readFailureTrace :: "(nat \<Rightarrow> mdstat) \<Rightarrow> nat \<Rightarrow> nat \<Rightarrow> event list" where
  "readFailureTrace reads i n =
     concat (map (\<lambda>k. [LogPrintf ''Error checking RAID status'' (projl (getMdChecking (reads k))),
                        Sleep readErrorBackoff]) [i..<i + n])"

subsection \<open>float64 arithmetic\<close>

text \<open>
  A binary64 number is an integer of at most 53 bits times a power of two. For a real
  \<open>x\<close> other than 0, \<open>f64_exponent x\<close> is the \<open>e\<close> with \<open>2^e \<le> |x| < 2^(e+1)\<close>, and
  the binary64 numbers around \<open>x\<close> are the multiples of \<open>f64_quantum x = 2^(e-52)\<close>
  (of \<open>2^(-1074)\<close> where \<open>x\<close> is subnormal, \<open>e < -1022\<close>). \<open>f64_round x\<close> is the nearest
  of them, the one with the even multiplier when two are equally near: the result of a
  float64 operation whose exact result is \<open>x\<close>. Overflow to an infinity (a result of
  \<open>2^1024\<close> or more) and NaN are not modelled; nothing below gets there from a status
  line, a percentage in [0, 100] and a 64-bit width.
\<close>

definition round_half_even :: "real \<Rightarrow> int" where
  "round_half_even y =
     (let f = \<lfloor>y\<rfloor>; d = y - of_int f
      in if d < 1 / 2 then f else if 1 / 2 < d then f + 1 else if even f then f else f + 1)"

definition f64_exponent :: "real \<Rightarrow> int" where
  "f64_exponent x =
     (if 1 \<le> \<bar>x\<bar> then int (floorlog 2 (nat \<lfloor>\<bar>x\<bar>\<rfloor>)) - 1
      else - int (floorlog 2 (nat (\<lceil>1 / \<bar>x\<bar>\<rceil> - 1))))"

definition f64_quantum :: "real \<Rightarrow> real" where
  "f64_quantum x = 2 powi (max (f64_exponent x) (- 1022) - 52)"

definition f64_round :: "real \<Rightarrow> real" where
  "f64_round x = f64_quantum x * of_int (round_half_even (x / f64_quantum x))"

text \<open>The conversion \<^verbatim>\<open>float64(n)\<close>, the product and the quotient of two float64 numbers.\<close>

definition f64_of_int :: "int \<Rightarrow> real" where
  "f64_of_int n = f64_round (of_int n)"

definition f64_mul :: "real \<Rightarrow> real \<Rightarrow> real" where
  "f64_mul x y = f64_round (x * y)"

definition f64_div :: "real \<Rightarrow> real \<Rightarrow> real" where
  "f64_div x y = f64_round (x / y)"

subsection \<open>getMdProgress and drawProgressBar with float64 rounding\<close>

text \<open>
  \<^verbatim>\<open>float64(completed) / float64(total) * 100\<close> and
  \<^verbatim>\<open>int(float64(width) * percent / 100)\<close>, each operation rounded; everything else is
  as in \<open>scanProgress\<close>, \<open>getMdProgress\<close>, \<open>barCompleted\<close>, \<open>barRemaining\<close> and
  \<open>drawProgressBar\<close>.
\<close>

fun scanProgress_f64 :: "string list \<Rightarrow> real option" where
  "scanProgress_f64 [] = None"
| "scanProgress_f64 (line # rest) =
     (if Contains line ''check'' \<or> Contains line ''resync'' then
        (let matches = progressRe_FindStringSubmatch line
         in if length matches > 1 then
              (let progress = matches ! 1;
                   completed = count_list progress (CHR ''='') + count_list progress (CHR ''>'');
                   total = length progress
               in Some (f64_mul (f64_div (f64_of_int (int completed)) (f64_of_int (int total))) 100))
            else scanProgress_f64 rest)
      else scanProgress_f64 rest)"

fun getMdProgress_f64 :: "mdstat \<Rightarrow> error + real" where
  "getMdProgress_f64 OpenFails = Inl FailedToOpen"
| "getMdProgress_f64 (Scanned ls err) =
     (case scanProgress_f64 ls of
        Some p \<Rightarrow> Inr p
      | None \<Rightarrow> if err then Inl FailedToRead else Inl NoProgressInformation)"

definition barCompleted_f64 :: "real \<Rightarrow> int \<Rightarrow> int" where
  "barCompleted_f64 percent width =
     float64_to_int (f64_div (f64_mul (f64_of_int width) percent) 100)"

definition barRemaining_f64 :: "real \<Rightarrow> int \<Rightarrow> int" where
  "barRemaining_f64 percent width =
     (let remaining = width - barCompleted_f64 percent width
      in if remaining > 0 then remaining - 1 else remaining)"

definition drawProgressBar_f64 :: "(real \<Rightarrow> string) \<Rightarrow> real \<Rightarrow> int \<Rightarrow> panic + string" where
  "drawProgressBar_f64 fmt_f1 percent width =
     (let completed = barCompleted_f64 percent width;
          remaining = width - completed
      in case Repeat ''='' completed of
           Inl p \<Rightarrow> Inl p
         | Inr bar \<Rightarrow>
             (let bar' = (if remaining > 0 then bar @ ''>'' else bar)
              in case Repeat ''.'' (barRemaining_f64 percent width) of
                   Inl p \<Rightarrow> Inl p
                 | Inr dots \<Rightarrow> Inr (''['' @ bar' @ dots @ ''] '' @ fmt_f1 percent @ ''%'')))"

section \<open>Properties\<close>

subsection \<open>Library functions\<close>

lemma Contains_sublist: "Contains s substr = sublist substr s"
  by (induction s) (simp_all add: sublist_Cons_right)

lemma countChecking_filter:
  "countChecking ls count = count + int (length (filter (\<lambda>l. Contains l ''check'') ls))"
  by (induction ls arbitrary: count) simp_all

lemma concat_replicate_single: "concat (replicate n [c]) = replicate n c"
  by (induction n) simp_all

lemma Repeat_single: "0 \<le> count \<Longrightarrow> Repeat [c] count = Inr (replicate (nat count) c)"
  by (simp add: Repeat_def concat_replicate_single)

lemma count_fill:
  "count_list g (CHR ''='') + count_list g (CHR ''>'')
   = length (filter (\<lambda>c. c = CHR ''='' \<or> c = CHR ''>'') g)"
  by (induction g) auto

subsection \<open>The progress pattern\<close>

text \<open>
  The leftmost-match function agrees with the pattern read as a set of strings: it finds
  a match exactly when the line has a bracketed non-empty run of \<open>=\<close>, \<open>>\<close>, \<open>.\<close>
  somewhere, and it returns the first one.
\<close>

lemma not_cls_brackets: "\<not> isProgressChar (CHR ''['')" "\<not> isProgressChar (CHR '']'')"
  by (simp_all add: isProgressChar_def)

lemma progressRe_at_Some:
  assumes "progressRe_at s = Some g"
  shows "g \<noteq> [] \<and> (\<forall>c\<in>set g. isProgressChar c) \<and> prefix (''['' @ g @ '']'') s"
proof (cases s)
  case Nil
  with assms show ?thesis by simp
next
  case (Cons c cs)
  with assms have c: "c = CHR ''[''" and g: "g = takeWhile isProgressChar cs" and ne: "g \<noteq> []"
    and r: "prefix '']'' (dropWhile isProgressChar cs)"
    by (auto simp: Let_def split: if_splits)
  from r obtain t where t: "dropWhile isProgressChar cs = '']'' @ t"
    by (auto simp: prefix_def)
  have "cs = g @ '']'' @ t"
    using takeWhile_dropWhile_id [of isProgressChar cs] g t by simp
  with Cons c have "s = (''['' @ g @ '']'') @ t" by simp
  then have "prefix (''['' @ g @ '']'') s" by (metis prefixI)
  moreover have "\<forall>c\<in>set g. isProgressChar c"
    using g by (auto dest: set_takeWhileD)
  ultimately show ?thesis using ne by simp
qed

lemma progressRe_at_match:
  assumes "g \<noteq> []" "\<forall>c\<in>set g. isProgressChar c"
  shows "progressRe_at (''['' @ g @ '']'' @ post) = Some g"
proof -
  have tw: "takeWhile isProgressChar (g @ CHR '']'' # post) = g"
    using assms(2) by (simp add: takeWhile_tail not_cls_brackets)
  have dw: "dropWhile isProgressChar (g @ CHR '']'' # post) = CHR '']'' # post"
    using assms(2) by (simp add: dropWhile_append2 not_cls_brackets)
  show ?thesis using assms(1) tw dw by (simp add: Let_def)
qed

lemma FindStringSubmatch_sound:
  "progressRe_FindStringSubmatch s \<noteq> [] \<Longrightarrow>
   \<exists>g. progressRe_FindStringSubmatch s = [''['' @ g @ '']'', g] \<and> g \<noteq> [] \<and>
       (\<forall>c\<in>set g. isProgressChar c) \<and> sublist (''['' @ g @ '']'') s"
proof (induction s)
  case Nil
  then show ?case by simp
next
  case (Cons c cs)
  show ?case
  proof (cases "progressRe_at (c # cs)")
    case None
    with Cons.prems have "progressRe_FindStringSubmatch cs \<noteq> []" by simp
    from Cons.IH [OF this] obtain g where
      "progressRe_FindStringSubmatch cs = [''['' @ g @ '']'', g]" "g \<noteq> []"
      "\<forall>c\<in>set g. isProgressChar c" "sublist (''['' @ g @ '']'') cs"
      by blast
    with None show ?thesis by (auto simp: sublist_Cons_right)
  next
    case (Some g)
    from progressRe_at_Some [OF Some] Some show ?thesis
      by (auto simp: sublist_Cons_right)
  qed
qed

lemma FindStringSubmatch_complete:
  assumes "g \<noteq> []" "\<forall>c\<in>set g. isProgressChar c" "sublist (''['' @ g @ '']'') s"
  shows "progressRe_FindStringSubmatch s \<noteq> []"
proof -
  from assms(3) obtain a b where s: "s = a @ (''['' @ g @ '']'') @ b"
    by (auto simp: sublist_def)
  have "progressRe_FindStringSubmatch (a @ ''['' @ g @ '']'' @ b) \<noteq> []"
  proof (induction a)
    case Nil
    show ?case using progressRe_at_match [OF assms(1,2), of b] by simp
  next
    case (Cons c a)
    then show ?case by (cases "progressRe_at (c # a @ ''['' @ g @ '']'' @ b)") simp_all
  qed
  with s show ?thesis by simp
qed

lemma FindStringSubmatch_nonempty_iff:
  "progressRe_FindStringSubmatch s \<noteq> [] \<longleftrightarrow>
   (\<exists>g. g \<noteq> [] \<and> (\<forall>c\<in>set g. isProgressChar c) \<and> sublist (''['' @ g @ '']'') s)"
  using FindStringSubmatch_complete FindStringSubmatch_sound by blast

lemma progressRe_at_None_before:
  assumes nq: "\<not> (\<exists>h. h \<noteq> [] \<and> (\<forall>c\<in>set h. isProgressChar c) \<and> sublist (''['' @ h @ '']'') (p # pre))"
  shows "progressRe_at (p # pre @ CHR ''['' # s) = None"
proof (rule ccontr)
  assume "progressRe_at (p # pre @ CHR ''['' # s) \<noteq> None"
  then obtain g where g: "progressRe_at (p # pre @ CHR ''['' # s) = Some g" by auto
  from progressRe_at_Some [OF this] obtain t where
    ne: "g \<noteq> []" and cls: "\<forall>c\<in>set g. isProgressChar c"
    and eq: "p # pre @ CHR ''['' # s = (''['' @ g @ '']'') @ t"
    by (auto simp: prefix_def)
  from eq have p: "p = CHR ''[''" and eq': "pre @ CHR ''['' # s = g @ CHR '']'' # t"
    by simp_all
  from eq' obtain us where
    "(pre = g @ us \<and> us @ CHR ''['' # s = CHR '']'' # t) \<or>
     (pre @ us = g \<and> CHR ''['' # s = us @ CHR '']'' # t)"
    by (auto simp: append_eq_append_conv2)
  then show False
  proof
    assume a: "pre = g @ us \<and> us @ CHR ''['' # s = CHR '']'' # t"
    then obtain us' where "us = CHR '']'' # us'"
      by (cases us) auto
    with a p have "p # pre = (''['' @ g @ '']'') @ us'" by simp
    then have "prefix (''['' @ g @ '']'') (p # pre)" by (metis prefixI)
    then have "sublist (''['' @ g @ '']'') (p # pre)" by (rule prefix_imp_sublist)
    with nq ne cls show False by blast
  next
    assume b: "pre @ us = g \<and> CHR ''['' # s = us @ CHR '']'' # t"
    then have "CHR ''['' \<in> set g" by (cases us) auto
    with cls show False by (auto simp: not_cls_brackets)
  qed
qed

lemma FindStringSubmatch_skip:
  assumes "\<not> (\<exists>h. h \<noteq> [] \<and> (\<forall>c\<in>set h. isProgressChar c) \<and> sublist (''['' @ h @ '']'') pre)"
  shows "progressRe_FindStringSubmatch (pre @ CHR ''['' # s) = progressRe_FindStringSubmatch (CHR ''['' # s)"
  using assms
proof (induction pre)
  case Nil
  show ?case by simp
next
  case (Cons p pre)
  have "\<not> (\<exists>h. h \<noteq> [] \<and> (\<forall>c\<in>set h. isProgressChar c) \<and> sublist (''['' @ h @ '']'') pre)"
    using Cons.prems by (meson sublist_Cons_right)
  from Cons.IH [OF this] progressRe_at_None_before [OF Cons.prems]
  show ?case by simp
qed

lemma FindStringSubmatch_leftmost:
  assumes "\<not> (\<exists>h. h \<noteq> [] \<and> (\<forall>c\<in>set h. isProgressChar c) \<and> sublist (''['' @ h @ '']'') pre)"
    and "g \<noteq> []" "\<forall>c\<in>set g. isProgressChar c"
  shows "progressRe_FindStringSubmatch (pre @ ''['' @ g @ '']'' @ post) = [''['' @ g @ '']'', g]"
proof -
  have "progressRe_FindStringSubmatch (pre @ ''['' @ g @ '']'' @ post)
        = progressRe_FindStringSubmatch (CHR ''['' # g @ '']'' @ post)"
    using FindStringSubmatch_skip [OF assms(1)] by simp
  also have "\<dots> = [''['' @ g @ '']'', g]"
    using progressRe_at_match [OF assms(2,3), of post] by simp
  finally show ?thesis .
qed

lemma FindStringSubmatch_none:
  assumes "\<not> (\<exists>h. h \<noteq> [] \<and> (\<forall>c\<in>set h. isProgressChar c) \<and> sublist (''['' @ h @ '']'') s)"
  shows "progressRe_FindStringSubmatch s = []"
  using assms FindStringSubmatch_sound by blast

lemma empty_brackets_no_match:
  assumes "\<forall>pre post. l = pre @ ''['' @ post \<longrightarrow> prefix '']'' post"
  shows "progressRe_FindStringSubmatch l = []"
proof (rule ccontr)
  assume "progressRe_FindStringSubmatch l \<noteq> []"
  then obtain g where ne: "g \<noteq> []" and cls: "\<forall>c\<in>set g. isProgressChar c"
    and sub: "sublist (''['' @ g @ '']'') l"
    using FindStringSubmatch_sound by blast
  from sub obtain a b where "l = a @ (''['' @ g @ '']'') @ b"
    by (auto simp: sublist_def)
  then have "l = a @ ''['' @ (g @ '']'' @ b)" by simp
  with assms have "prefix '']'' (g @ '']'' @ b)" by blast
  with ne have "hd g = CHR '']''" by (cases g) simp_all
  moreover from ne have "hd g \<in> set g" by simp
  ultimately show False using cls by (auto simp: not_cls_brackets)
qed

lemma only_empty_bracket:
  assumes "l = pre @ ''[]'' @ post" "CHR ''['' \<notin> set pre" "CHR ''['' \<notin> set post"
  shows "\<forall>a b. l = a @ ''['' @ b \<longrightarrow> prefix '']'' b"
proof (intro allI impI)
  fix a b
  assume "l = a @ ''['' @ b"
  with assms(1) have eq: "a @ CHR ''['' # b = pre @ CHR ''['' # CHR '']'' # post" by simp
  then obtain us where
    "(a = pre @ us \<and> us @ CHR ''['' # b = CHR ''['' # CHR '']'' # post) \<or>
     (a @ us = pre \<and> CHR ''['' # b = us @ CHR ''['' # CHR '']'' # post)"
    by (auto simp: append_eq_append_conv2)
  then show "prefix '']'' b"
  proof
    assume h: "a = pre @ us \<and> us @ CHR ''['' # b = CHR ''['' # CHR '']'' # post"
    show ?thesis
    proof (cases us)
      case Nil
      with h show ?thesis by simp
    next
      case (Cons u us')
      with h have "us' @ CHR ''['' # b = CHR '']'' # post" by simp
      then have "CHR ''['' \<in> set post" by (cases us') auto
      with assms(3) show ?thesis by simp
    qed
  next
    assume h: "a @ us = pre \<and> CHR ''['' # b = us @ CHR ''['' # CHR '']'' # post"
    show ?thesis
    proof (cases us)
      case Nil
      with h show ?thesis by simp
    next
      case (Cons u us')
      with h have "CHR ''['' \<in> set pre" by auto
      with assms(2) show ?thesis by simp
    qed
  qed
qed

subsection \<open>The scan for progress\<close>

lemma scanProgress_skip:
  assumes "\<forall>l\<in>set before. (Contains l ''check'' \<or> Contains l ''resync'') \<longrightarrow>
             progressRe_FindStringSubmatch l = []"
  shows "scanProgress (before @ rest) = scanProgress rest"
  using assms by (induction before) (simp_all add: Let_def)



lemma scanProgress_None_iff:
  "scanProgress ls = None \<longleftrightarrow>
   (\<forall>l\<in>set ls. (Contains l ''check'' \<or> Contains l ''resync'') \<longrightarrow> progressRe_FindStringSubmatch l = [])"
proof (induction ls)
  case Nil
  show ?case by simp
next
  case (Cons l ls)
  show ?case
  proof (cases "(Contains l ''check'' \<or> Contains l ''resync'') \<and> progressRe_FindStringSubmatch l \<noteq> []")
    case True
    then obtain g where "progressRe_FindStringSubmatch l = [''['' @ g @ '']'', g]"
      using FindStringSubmatch_sound by blast
    with True have "scanProgress (l # ls) \<noteq> None"
      by (simp add: Let_def del: Contains.simps)
    with True show ?thesis by auto
  next
    case False
    then have "scanProgress (l # ls) = scanProgress ls"
      by (auto simp: Let_def simp del: Contains.simps)
    with False Cons.IH show ?thesis by auto
  qed
qed



subsection \<open>The bar's two counts\<close>



lemma barCompleted_100: "0 \<le> width \<Longrightarrow> barCompleted 100 width = width"
  by (simp add: barCompleted_def float64_to_int_def)

lemma barCompleted_0: "barCompleted 0 width = 0"
  by (simp add: barCompleted_def float64_to_int_def)

lemma drawProgressBar_in_range:
  assumes "0 \<le> barCompleted percent width" "barCompleted percent width \<le> width"
  shows "drawProgressBar fmt_f1 percent width =
         Inr (''['' @ replicate (nat (barCompleted percent width)) (CHR ''='') @
              (if barCompleted percent width < width then ''>'' else []) @
              replicate (nat (width - barCompleted percent width - 1)) (CHR ''.'') @
              ''] '' @ fmt_f1 percent @ ''%'')"
proof (cases "barCompleted percent width < width")
  case True
  then have "barRemaining percent width = width - barCompleted percent width - 1"
    by (simp add: barRemaining_def Let_def)
  with True assms show ?thesis
    by (simp add: drawProgressBar_def Let_def Repeat_single)
next
  case False
  with assms have eq: "barCompleted percent width = width" by simp
  then have "barRemaining percent width = 0"
    by (simp add: barRemaining_def Let_def)
  with eq assms show ?thesis
    by (simp add: drawProgressBar_def Let_def Repeat_single)
qed

subsection \<open>The poll loop\<close>

lemma readFailureTrace_Suc:
  "readFailureTrace reads i (Suc n) =
     [LogPrintf ''Error checking RAID status'' (projl (getMdChecking (reads i))), Sleep readErrorBackoff]
     @ readFailureTrace reads (Suc i) n"
proof -
  have "[i..<i + Suc n] = i # [Suc i..<Suc i + n]"
    by (simp add: upt_conv_Cons del: upt_Suc)
  then show ?thesis by (simp add: readFailureTrace_def)
qed

lemma pollLoop_read_failures:
  assumes "\<forall>k<n. isl (getMdChecking (reads (i + k)))"
  shows "pollLoop (n + m) fmt_f1 reads i tr
         = pollLoop m fmt_f1 reads (i + n) (tr @ readFailureTrace reads i n)"
  using assms
proof (induction n arbitrary: i tr)
  case 0
  show ?case by (simp add: readFailureTrace_def)
next
  case (Suc n)
  from Suc.prems have "isl (getMdChecking (reads i))" by force
  then obtain err where err: "getMdChecking (reads i) = Inl err"
    by (cases "getMdChecking (reads i)") simp_all
  from Suc.prems have "\<forall>k<n. isl (getMdChecking (reads (Suc i + k)))" by force
  from Suc.IH [OF this]
  have "pollLoop (n + m) fmt_f1 reads (Suc i)
          (tr @ [LogPrintf ''Error checking RAID status'' err, Sleep readErrorBackoff])
        = pollLoop m fmt_f1 reads (Suc i + n)
            ((tr @ [LogPrintf ''Error checking RAID status'' err, Sleep readErrorBackoff])
             @ readFailureTrace reads (Suc i) n)" .
  with err show ?case by (simp add: readFailureTrace_Suc)
qed

lemma readFailureTrace_no_reboot: "RunReboot \<notin> set (readFailureTrace reads i n)"
  by (auto simp: readFailureTrace_def)

lemma pollLoop_no_reboot:
  "pollLoop n fmt_f1 reads i tr = (ex, j, tr') \<Longrightarrow> RunReboot \<notin> set tr \<Longrightarrow> RunReboot \<notin> set tr'"
proof (induction n fmt_f1 reads i tr rule: pollLoop.induct)
  case (1 fmt_f1 reads i tr)
  then show ?case by simp
next
  case (2 n fmt_f1 reads i tr)
  show ?case
  proof (cases "getMdChecking (reads i)")
    case (Inl err)
    with "2.prems" "2.IH"(1) [OF Inl] show ?thesis by simp
  next
    case (Inr count)
    show ?thesis
    proof (cases "count = 0")
      case True
      with Inr "2.prems" show ?thesis by simp
    next
      case False
      show ?thesis
        using "2.prems" "2.IH"(2,3) Inr False
        by (auto simp: Let_def split: sum.splits if_splits)
    qed
  qed
qed

lemma pollLoop_Break:
  "pollLoop n fmt_f1 reads i tr = (Break, j, tr') \<Longrightarrow> 0 < j \<and> getMdChecking (reads (j - 1)) = Inr 0"
proof (induction n fmt_f1 reads i tr rule: pollLoop.induct)
  case (1 fmt_f1 reads i tr)
  then show ?case by simp
next
  case (2 n fmt_f1 reads i tr)
  show ?case
  proof (cases "getMdChecking (reads i)")
    case (Inl err)
    with "2.prems" "2.IH"(1) [OF Inl] show ?thesis by simp
  next
    case (Inr count)
    show ?thesis
    proof (cases "count = 0")
      case True
      with Inr "2.prems" show ?thesis by auto
    next
      case False
      show ?thesis
        using "2.prems" "2.IH"(2,3) Inr False
        by (auto simp: Let_def split: sum.splits if_splits)
    qed
  qed
qed

text \<open>
  The bound only cuts runs short: a loop that has ended within \<open>n\<close> iterations ends
  the same way under any larger bound.
\<close>

lemma pollLoop_more_fuel:
  "pollLoop n fmt_f1 reads i tr = (ex, j, tr') \<Longrightarrow> ex \<noteq> OutOfFuel \<Longrightarrow>
   pollLoop (n + m) fmt_f1 reads i tr = (ex, j, tr')"
proof (induction n fmt_f1 reads i tr rule: pollLoop.induct)
  case (1 fmt_f1 reads i tr)
  then show ?case by simp
next
  case (2 n fmt_f1 reads i tr)
  show ?case
  proof (cases "getMdChecking (reads i)")
    case (Inl err)
    with "2.prems" "2.IH"(1) [OF Inl] show ?thesis by simp
  next
    case (Inr count)
    show ?thesis
    proof (cases "count = 0")
      case True
      with Inr "2.prems" show ?thesis by simp
    next
      case False
      show ?thesis
        using "2.prems" "2.IH"(2,3) Inr False
        by (auto simp: Let_def split: sum.splits if_splits)
    qed
  qed
qed

subsection \<open>Rounding to binary64\<close>

lemma round_half_even_cases:
  "round_half_even y = \<lfloor>y\<rfloor> \<and> y - of_int \<lfloor>y\<rfloor> \<le> 1 / 2
   \<or> round_half_even y = \<lfloor>y\<rfloor> + 1 \<and> 1 / 2 \<le> y - of_int \<lfloor>y\<rfloor>"
  by (simp add: round_half_even_def Let_def)

lemma round_half_even_bounds: "\<bar>of_int (round_half_even y) - y\<bar> \<le> 1 / 2"
proof -
  have "of_int \<lfloor>y\<rfloor> \<le> y" "y < of_int \<lfloor>y\<rfloor> + 1" by linarith+
  with round_half_even_cases [of y] show ?thesis by auto
qed

lemma round_half_even_of_int [simp]: "round_half_even (of_int n) = n"
  by (simp add: round_half_even_def)

lemma round_half_even_mono:
  assumes "x \<le> y"
  shows "round_half_even x \<le> round_half_even y"
proof (cases "\<lfloor>x\<rfloor> = \<lfloor>y\<rfloor>")
  case True
  with assms have "y - of_int \<lfloor>y\<rfloor> < 1 / 2 \<Longrightarrow> x - of_int \<lfloor>x\<rfloor> < 1 / 2"
    and "1 / 2 < x - of_int \<lfloor>x\<rfloor> \<Longrightarrow> 1 / 2 < y - of_int \<lfloor>y\<rfloor>"
    by simp_all
  with True show ?thesis
    by (simp add: round_half_even_def Let_def)
next
  case False
  with assms have "\<lfloor>x\<rfloor> < \<lfloor>y\<rfloor>" using floor_mono [of x y] by simp
  then have "\<lfloor>x\<rfloor> + 1 \<le> \<lfloor>y\<rfloor>" by simp
  moreover have "round_half_even x \<le> \<lfloor>x\<rfloor> + 1"
    using round_half_even_cases [of x] by auto
  moreover have "\<lfloor>y\<rfloor> \<le> round_half_even y"
    using round_half_even_cases [of y] by auto
  ultimately show ?thesis by linarith
qed

lemma f64_exponent_bounds:
  assumes "x \<noteq> 0"
  shows "2 powi (f64_exponent x) \<le> \<bar>x\<bar> \<and> \<bar>x\<bar> < 2 powi (f64_exponent x + 1)"
proof (cases "1 \<le> \<bar>x\<bar>")
  case True
  define n where "n = nat \<lfloor>\<bar>x\<bar>\<rfloor>"
  define t where "t = floorlog 2 n"
  from True have n: "0 < n" by (simp add: n_def)
  have nx: "real n \<le> \<bar>x\<bar>" "\<bar>x\<bar> < real n + 1"
    using True unfolding n_def by linarith+
  from floorlog_bounds [of n 2] n have b: "2 ^ (t - 1) \<le> n" "n < 2 ^ t"
    by (simp_all add: t_def)
  from n have t: "0 < t" by (simp add: t_def floorlog_def)
  have e: "f64_exponent x = int t - 1"
    using True by (simp add: f64_exponent_def n_def t_def)
  have "(2::real) powi (int t - 1) = 2 ^ (t - 1)"
    using t by (metis of_nat_1 of_nat_diff power_int_of_nat Suc_leI One_nat_def)
  moreover have "(2::real) ^ (t - 1) \<le> real n"
    using b(1) by (metis of_nat_le_iff of_nat_numeral of_nat_power)
  moreover have "real n + 1 \<le> 2 ^ t"
  proof -
    from b(2) have "n + 1 \<le> 2 ^ t" by simp
    then have "real (n + 1) \<le> real (2 ^ t)" by (rule of_nat_mono)
    then show ?thesis by simp
  qed
  moreover have "(2::real) powi (int t - 1 + 1) = 2 ^ t" by simp
  ultimately have "2 powi (int t - 1) \<le> \<bar>x\<bar>" "\<bar>x\<bar> < 2 powi (int t - 1 + 1)"
    using nx by linarith+
  with e show ?thesis by simp
next
  case False
  define a where "a = \<bar>x\<bar>"
  from False assms have a: "0 < a" "a < 1" by (simp_all add: a_def)
  define y where "y = 1 / a"
  from a have y: "1 < y" by (simp add: y_def)
  define m where "m = nat (\<lceil>y\<rceil> - 1)"
  define t where "t = floorlog 2 m"
  from y have c: "2 \<le> \<lceil>y\<rceil>" by (simp add: le_ceiling_iff)
  then have m: "0 < m" by (simp add: m_def)
  have my: "real m < y" "y \<le> real m + 1"
    using c unfolding m_def by linarith+
  from floorlog_bounds [of m 2] m have b: "2 ^ (t - 1) \<le> m" "m < 2 ^ t"
    by (simp_all add: t_def)
  from m have t: "0 < t" by (simp add: t_def floorlog_def)
  have e: "f64_exponent x = - int t"
    using False by (simp add: f64_exponent_def m_def t_def y_def a_def)
  have "(2::real) ^ (t - 1) \<le> real m"
    using b(1) by (metis of_nat_le_iff of_nat_numeral of_nat_power)
  with my have lo: "(2::real) ^ (t - 1) < y" by linarith
  have "real m + 1 \<le> 2 ^ t"
  proof -
    from b(2) have "m + 1 \<le> 2 ^ t" by simp
    then have "real (m + 1) \<le> real (2 ^ t)" by (rule of_nat_mono)
    then show ?thesis by simp
  qed
  with my have hi: "y \<le> 2 ^ t" by linarith
  have p1: "(2::real) powi (- int t) = 1 / 2 ^ t"
    by (simp add: power_int_minus_divide)
  have p2: "(2::real) powi (- int t + 1) = 1 / 2 ^ (t - 1)"
  proof -
    have "- int t + 1 = - int (t - 1)" using t by simp
    then show ?thesis by (simp only: power_int_minus_divide power_int_of_nat)
  qed
  from hi a have "1 / 2 ^ t \<le> a"
    by (simp add: y_def field_simps)
  moreover from lo a have "a < 1 / 2 ^ (t - 1)"
    by (simp add: y_def field_simps)
  ultimately show ?thesis using e p1 p2 by (simp add: a_def)
qed

lemma two_powi_less_D:
  assumes "(2::real) powi a < 2 powi b"
  shows "a < b"
proof (rule ccontr)
  assume "\<not> a < b"
  then have "b \<le> a" by simp
  then have "(2::real) powi b \<le> 2 powi a" by (rule power_int_increasing) simp
  with assms show False by simp
qed

lemma f64_exponent_eq:
  assumes "2 powi e \<le> \<bar>x\<bar>" "\<bar>x\<bar> < 2 powi (e + 1)"
  shows "f64_exponent x = e"
proof -
  have "0 < (2::real) powi e" by simp
  with assms(1) have "0 < \<bar>x\<bar>" by linarith
  then have x: "x \<noteq> 0" by simp
  from f64_exponent_bounds [OF x]
  have b: "2 powi (f64_exponent x) \<le> \<bar>x\<bar>" "\<bar>x\<bar> < 2 powi (f64_exponent x + 1)" by simp_all
  from assms(1) b(2) have "(2::real) powi e < 2 powi (f64_exponent x + 1)" by simp
  then have 1: "e < f64_exponent x + 1"
    by (rule two_powi_less_D)
  from b(1) assms(2) have "(2::real) powi (f64_exponent x) < 2 powi (e + 1)" by simp
  then have 2: "f64_exponent x < e + 1"
    by (rule two_powi_less_D)
  from 1 2 show ?thesis by simp
qed

lemma f64_round_quantum:
  "f64_round x = f64_quantum x * of_int (round_half_even (x / f64_quantum x))"
  by (simp add: f64_round_def)

lemma f64_quantum_pos [simp]: "0 < f64_quantum x"
  by (simp add: f64_quantum_def)

lemma f64_quantum_nonneg [simp]: "0 \<le> f64_quantum x"
  by (rule less_imp_le) simp

lemma f64_quantum_neq0 [simp]: "f64_quantum x \<noteq> 0"
  by (metis f64_quantum_pos less_irrefl)

lemma two_powi_add: "(2::real) powi (a + b) = 2 powi a * 2 powi b"
  by (simp add: power_int_add)

lemma two_powi_diff: "(2::real) powi (a - b) = 2 powi a / 2 powi b"
  by (simp add: power_int_diff)

lemma two_powi_nat: "0 \<le> j \<Longrightarrow> (2::real) powi j = of_int (2 ^ nat j)"
  by (simp add: power_int_def)

lemma f64_round_le_grid:
  assumes "x \<le> f64_quantum x * of_int N"
  shows "f64_round x \<le> f64_quantum x * of_int N"
proof -
  from assms have "x / f64_quantum x \<le> of_int N"
    by (simp add: pos_divide_le_eq mult.commute)
  then have "round_half_even (x / f64_quantum x) \<le> round_half_even (of_int N)"
    by (rule round_half_even_mono)
  then have "round_half_even (x / f64_quantum x) \<le> N" by simp
  then have "(of_int (round_half_even (x / f64_quantum x)) :: real) \<le> of_int N" by simp
  then show ?thesis
    unfolding f64_round_quantum by (rule mult_left_mono) simp
qed

lemma f64_round_ge_grid:
  assumes "f64_quantum x * of_int N \<le> x"
  shows "f64_quantum x * of_int N \<le> f64_round x"
proof -
  from assms have "of_int N \<le> x / f64_quantum x"
    by (simp add: pos_le_divide_eq mult.commute)
  then have "round_half_even (of_int N) \<le> round_half_even (x / f64_quantum x)"
    by (rule round_half_even_mono)
  then have "N \<le> round_half_even (x / f64_quantum x)" by simp
  then have "(of_int N :: real) \<le> of_int (round_half_even (x / f64_quantum x))" by simp
  then show ?thesis
    unfolding f64_round_quantum by (rule mult_left_mono) simp
qed

lemma f64_round_0 [simp]: "f64_round 0 = 0"
  by (simp add: f64_round_quantum round_half_even_def)

lemma f64_round_nonneg:
  assumes "0 \<le> x"
  shows "0 \<le> f64_round x"
  using f64_round_ge_grid [of x 0] assms by simp

lemma f64_exponent_mono:
  assumes "0 < x" "x \<le> y"
  shows "f64_exponent x \<le> f64_exponent y"
proof -
  from assms have x: "x \<noteq> 0" and y: "y \<noteq> 0" by simp_all
  from f64_exponent_bounds [OF x] f64_exponent_bounds [OF y] assms
  have "2 powi (f64_exponent x) \<le> x" "y < 2 powi (f64_exponent y + 1)" by simp_all
  with assms(2) have "(2::real) powi (f64_exponent x) < 2 powi (f64_exponent y + 1)" by linarith
  then have "f64_exponent x < f64_exponent y + 1" by (rule two_powi_less_D)
  then show ?thesis by simp
qed

text \<open>Rounding is monotone, leaves a binary64 number as it is, and is off by at most
  one part in \<open>2^53\<close> on a normal number.\<close>

lemma f64_round_mono:
  assumes "0 \<le> x" "x \<le> y"
  shows "f64_round x \<le> f64_round y"
proof (cases "x = 0")
  case True
  with assms f64_round_nonneg [of y] show ?thesis by simp
next
  case False
  with assms have x: "0 < x" and y: "0 < y" by simp_all
  define mx where "mx = max (f64_exponent x) (- 1022)"
  define my where "my = max (f64_exponent y) (- 1022)"
  have qx: "f64_quantum x = 2 powi (mx - 52)" and qy: "f64_quantum y = 2 powi (my - 52)"
    by (simp_all add: f64_quantum_def mx_def my_def)
  from f64_exponent_mono [OF x assms(2)] have le: "mx \<le> my"
    by (simp add: mx_def my_def)
  show ?thesis
  proof (cases "mx = my")
    case True
    then have q: "f64_quantum x = f64_quantum y" by (simp add: qx qy)
    from assms(2) have "x / f64_quantum y \<le> y / f64_quantum y"
      by (simp add: divide_right_mono)
    then have "round_half_even (x / f64_quantum y) \<le> round_half_even (y / f64_quantum y)"
      by (rule round_half_even_mono)
    then have "(of_int (round_half_even (x / f64_quantum y)) :: real)
               \<le> of_int (round_half_even (y / f64_quantum y))" by simp
    then have "f64_quantum y * of_int (round_half_even (x / f64_quantum y))
               \<le> f64_quantum y * of_int (round_half_even (y / f64_quantum y))"
      by (rule mult_left_mono) simp
    then show ?thesis by (simp add: f64_round_quantum q)
  next
    case False
    with le have lt: "mx < my" by simp
    then have ey: "my = f64_exponent y" and gt: "f64_exponent x < f64_exponent y"
      by (auto simp: mx_def my_def max_def split: if_splits)
    define P :: real where "P = 2 powi my"
    from x y f64_exponent_bounds [of x] f64_exponent_bounds [of y]
    have bx: "x < 2 powi (f64_exponent x + 1)" and by': "2 powi (f64_exponent y) \<le> y"
      by simp_all
    from gt have "(2::real) powi (f64_exponent x + 1) \<le> 2 powi (f64_exponent y)"
      by (intro power_int_increasing) simp_all
    with bx have xP: "x \<le> P" by (simp add: P_def ey)
    from by' have Py: "P \<le> y" by (simp add: P_def ey)
    have "my = (mx - 52) + (my - mx + 52)" by simp
    then have "P = 2 powi (mx - 52) * 2 powi (my - mx + 52)"
      unfolding P_def by (metis two_powi_add)
    also have "(2::real) powi (my - mx + 52) = of_int (2 ^ nat (my - mx + 52))"
      using lt by (intro two_powi_nat) simp
    finally have Px: "P = f64_quantum x * of_int (2 ^ nat (my - mx + 52))"
      by (simp only: qx)
    have "my = (my - 52) + 52" by simp
    then have "P = 2 powi (my - 52) * 2 powi 52"
      unfolding P_def by (metis two_powi_add)
    also have "(2::real) powi 52 = of_int (2 ^ nat 52)"
      by (intro two_powi_nat) simp
    finally have Py': "P = f64_quantum y * of_int (2 ^ nat 52)"
      by (simp only: qy)
    from f64_round_le_grid [of x "2 ^ nat (my - mx + 52)"] xP Px have "f64_round x \<le> P"
      by simp
    moreover from f64_round_ge_grid [of y "2 ^ nat 52"] Py Py' have "P \<le> f64_round y"
      by simp
    ultimately show ?thesis by simp
  qed
qed

lemma f64_round_exact:
  assumes "\<bar>m\<bar> < 2 ^ 53" "- 1022 \<le> k"
  shows "f64_round (of_int m * 2 powi k) = of_int m * 2 powi k"
proof (cases "m = 0")
  case True
  then show ?thesis by simp
next
  case False
  define x :: real where "x = of_int m * 2 powi k"
  have ax: "\<bar>x\<bar> = of_int \<bar>m\<bar> * 2 powi k"
    by (simp add: x_def abs_mult)
  from False have "1 \<le> \<bar>m\<bar>" by simp
  then have "(1::real) \<le> of_int \<bar>m\<bar>" by simp
  then have "1 * 2 powi k \<le> of_int \<bar>m\<bar> * (2::real) powi k"
    by (intro mult_right_mono) simp_all
  then have xk: "2 powi k \<le> \<bar>x\<bar>" by (simp add: ax)
  have "0 < (2::real) powi k" by simp
  with xk have "0 < \<bar>x\<bar>" by linarith
  then have x0: "x \<noteq> 0" by simp
  define e where "e = f64_exponent x"
  from f64_exponent_bounds [OF x0]
  have b: "2 powi e \<le> \<bar>x\<bar>" "\<bar>x\<bar> < 2 powi (e + 1)" by (simp_all add: e_def)
  from xk b(2) have "(2::real) powi k < 2 powi (e + 1)" by linarith
  then have "k < e + 1" by (rule two_powi_less_D)
  with assms(2) have e0: "- 1022 \<le> e" by simp
  from assms(1) have "(of_int \<bar>m\<bar> :: real) < of_int (2 ^ 53)" by (simp only: of_int_less_iff)
  then have "(of_int \<bar>m\<bar> :: real) < 2 powi 53" by simp
  then have "\<bar>x\<bar> < 2 powi 53 * 2 powi k"
    unfolding ax by (rule mult_strict_right_mono) simp
  then have "\<bar>x\<bar> < 2 powi (53 + k)" by (simp only: two_powi_add)
  with b(1) have "(2::real) powi e < 2 powi (53 + k)" by linarith
  then have e1: "e < 53 + k" by (rule two_powi_less_D)
  define j where "j = k + 52 - e"
  from e1 have j: "0 \<le> j" by (simp add: j_def)
  from e0 have q: "f64_quantum x = 2 powi (e - 52)"
    by (simp add: f64_quantum_def e_def)
  have "x / f64_quantum x = x / 2 powi (e - 52)"
    by (simp only: q)
  also have "\<dots> = of_int m * (2 powi k / 2 powi (e - 52))"
    by (simp add: x_def)
  also have "2 powi k / (2::real) powi (e - 52) = 2 powi j"
  proof -
    have "j = k - (e - 52)" by (simp add: j_def)
    then show ?thesis by (simp only: two_powi_diff)
  qed
  also have "(2::real) powi j = of_int (2 ^ nat j)"
    using j by (rule two_powi_nat)
  finally have "x / f64_quantum x = of_int (m * 2 ^ nat j)" by simp
  then have "f64_round x = f64_quantum x * (x / f64_quantum x)"
    by (simp only: f64_round_quantum round_half_even_of_int)
  then show ?thesis by (simp add: x_def)
qed

lemma f64_round_of_int:
  assumes "\<bar>m\<bar> < 2 ^ 53"
  shows "f64_round (of_int m) = of_int m"
  using f64_round_exact [OF assms, of 0] by simp

lemma f64_round_error:
  assumes "2 powi (- 1022) \<le> \<bar>x\<bar>"
  shows "\<bar>f64_round x - x\<bar> \<le> 2 powi (- 53) * \<bar>x\<bar>"
proof -
  have "0 < (2::real) powi (- 1022)" by simp
  with assms have "0 < \<bar>x\<bar>" by linarith
  then have x0: "x \<noteq> 0" by simp
  from f64_exponent_bounds [OF x0]
  have b: "2 powi (f64_exponent x) \<le> \<bar>x\<bar>" "\<bar>x\<bar> < 2 powi (f64_exponent x + 1)" by simp_all
  from assms b(2) have "(2::real) powi (- 1022) < 2 powi (f64_exponent x + 1)" by linarith
  then have "- 1022 < f64_exponent x + 1" by (rule two_powi_less_D)
  then have q: "f64_quantum x = 2 powi (f64_exponent x - 52)"
    by (simp add: f64_quantum_def)
  let ?q = "f64_quantum x"
  have "f64_round x - x = ?q * (of_int (round_half_even (x / ?q)) - x / ?q)"
    by (simp add: f64_round_quantum right_diff_distrib)
  then have "\<bar>f64_round x - x\<bar> = ?q * \<bar>of_int (round_half_even (x / ?q)) - x / ?q\<bar>"
    by (simp add: abs_mult)
  also have "\<dots> \<le> ?q * (1 / 2)"
    by (intro mult_left_mono round_half_even_bounds) simp
  also have "?q * (1 / 2) = 2 powi (- 53) * 2 powi (f64_exponent x)"
  proof -
    have "f64_exponent x - 52 = (- 53 + f64_exponent x) + 1" by simp
    then have "?q = 2 powi (- 53 + f64_exponent x) * 2 powi 1"
      unfolding q by (metis two_powi_add)
    also have "(2::real) powi (- 53 + f64_exponent x) = 2 powi (- 53) * 2 powi (f64_exponent x)"
      by (rule two_powi_add)
    finally show ?thesis by simp
  qed
  also have "\<dots> \<le> 2 powi (- 53) * \<bar>x\<bar>"
    using b(1) by (intro mult_left_mono) simp_all
  finally show ?thesis .
qed

lemma f64_round_eval:
  assumes "2 powi e \<le> \<bar>x\<bar>" "\<bar>x\<bar> < 2 powi (e + 1)" "- 1022 \<le> e"
  shows "f64_round x = 2 powi (e - 52) * of_int (round_half_even (x / 2 powi (e - 52)))"
proof -
  from f64_exponent_eq [OF assms(1,2)] assms(3) have "f64_quantum x = 2 powi (e - 52)"
    by (simp add: f64_quantum_def)
  then show ?thesis by (simp add: f64_round_quantum)
qed

lemma f64_round_1 [simp]: "f64_round 1 = 1"
  using f64_round_of_int [of 1] by simp

lemma f64_round_100 [simp]: "f64_round 100 = 100"
  using f64_round_of_int [of 100] by simp

lemma f64_of_int_exact: "\<bar>n\<bar> < 2 ^ 53 \<Longrightarrow> f64_of_int n = of_int n"
  by (simp add: f64_of_int_def f64_round_of_int)

lemma f64_round_100_mult:
  assumes "0 \<le> n" "n \<le> 2 ^ 48 + 1"
  shows "f64_round (100 * of_int n) = 100 * of_int n"
proof -
  from assms have "\<bar>25 * n\<bar> < 2 ^ 53" by simp
  from f64_round_exact [OF this, of 2] show ?thesis by simp
qed

subsection \<open>The rounded percentage\<close>

lemma scanProgress_f64_skip:
  assumes "\<forall>l\<in>set before. (Contains l ''check'' \<or> Contains l ''resync'') \<longrightarrow>
             progressRe_FindStringSubmatch l = []"
  shows "scanProgress_f64 (before @ rest) = scanProgress_f64 rest"
  using assms by (induction before) (simp_all add: Let_def)

lemma scanProgress_f64_hit:
  assumes "Contains line ''check'' \<or> Contains line ''resync''"
    and "progressRe_FindStringSubmatch line = [w, g]"
  shows "scanProgress_f64 (line # rest) =
         Some (f64_mul (f64_div (f64_of_int (int (length (filter (\<lambda>c. c = CHR ''='' \<or> c = CHR ''>'') g))))
                                (f64_of_int (int (length g)))) 100)"
  using assms by (simp add: Let_def count_fill del: Contains.simps)

lemma scanProgress_f64_Some:
  "scanProgress_f64 ls = Some p \<Longrightarrow>
   \<exists>before line after w g. ls = before @ line # after \<and>
     (Contains line ''check'' \<or> Contains line ''resync'') \<and>
     progressRe_FindStringSubmatch line = [w, g] \<and>
     p = f64_mul (f64_div (f64_of_int (int (length (filter (\<lambda>c. c = CHR ''='' \<or> c = CHR ''>'') g))))
                          (f64_of_int (int (length g)))) 100"
proof (induction ls)
  case Nil
  then show ?case by simp
next
  case (Cons l ls)
  show ?case
  proof (cases "(Contains l ''check'' \<or> Contains l ''resync'') \<and> progressRe_FindStringSubmatch l \<noteq> []")
    case True
    then obtain g where fs: "progressRe_FindStringSubmatch l = [''['' @ g @ '']'', g]"
      using FindStringSubmatch_sound by blast
    from True have m: "Contains l ''check'' \<or> Contains l ''resync''" by simp
    from scanProgress_f64_hit [OF m fs, of ls] Cons.prems
    have "p = f64_mul (f64_div (f64_of_int (int (length (filter (\<lambda>c. c = CHR ''='' \<or> c = CHR ''>'') g))))
                          (f64_of_int (int (length g)))) 100"
      by simp
    with m fs have "l # ls = [] @ l # ls \<and> (Contains l ''check'' \<or> Contains l ''resync'') \<and>
       progressRe_FindStringSubmatch l = [''['' @ g @ '']'', g] \<and>
       p = f64_mul (f64_div (f64_of_int (int (length (filter (\<lambda>c. c = CHR ''='' \<or> c = CHR ''>'') g))))
                          (f64_of_int (int (length g)))) 100"
      by simp
    then show ?thesis by blast
  next
    case False
    then have "scanProgress_f64 (l # ls) = scanProgress_f64 ls"
      by (auto simp: Let_def simp del: Contains.simps)
    with Cons.prems have "scanProgress_f64 ls = Some p" by simp
    from Cons.IH [OF this] obtain before line after w g where
      h: "ls = before @ line # after" "Contains line ''check'' \<or> Contains line ''resync''"
      "progressRe_FindStringSubmatch line = [w, g]"
      "p = f64_mul (f64_div (f64_of_int (int (length (filter (\<lambda>c. c = CHR ''='' \<or> c = CHR ''>'') g))))
                          (f64_of_int (int (length g)))) 100"
      by blast
    then have "l # ls = (l # before) @ line # after" by simp
    with h(2-4) show ?thesis by blast
  qed
qed

lemma getMdProgress_f64_first_bracket:
  assumes marker: "sublist ''check'' line \<or> sublist ''resync'' line"
    and line: "line = pre @ ''['' @ g @ '']'' @ post"
    and g: "g \<noteq> []" "\<forall>c\<in>set g. c = CHR ''='' \<or> c = CHR ''>'' \<or> c = CHR ''.''"
    and pre: "\<not> (\<exists>h. h \<noteq> [] \<and> (\<forall>c\<in>set h. isProgressChar c) \<and> sublist (''['' @ h @ '']'') pre)"
    and before: "\<forall>l\<in>set before. (sublist ''check'' l \<or> sublist ''resync'' l) \<longrightarrow>
        \<not> (\<exists>h. h \<noteq> [] \<and> (\<forall>c\<in>set h. isProgressChar c) \<and> sublist (''['' @ h @ '']'') l)"
  shows "getMdProgress_f64 (Scanned (before @ line # after) err)
         = Inr (f64_mul (f64_div (f64_of_int (int (length (filter (\<lambda>c. c = CHR ''='' \<or> c = CHR ''>'') g))))
                                 (f64_of_int (int (length g)))) 100)"
proof -
  have cls: "\<forall>c\<in>set g. isProgressChar c"
    using g(2) by (simp add: isProgressChar_def)
  have fs: "progressRe_FindStringSubmatch line = [''['' @ g @ '']'', g]"
    unfolding line by (rule FindStringSubmatch_leftmost [OF pre g(1) cls])
  have m: "Contains line ''check'' \<or> Contains line ''resync''"
    using marker by (simp only: Contains_sublist)
  have "\<forall>l\<in>set before. (Contains l ''check'' \<or> Contains l ''resync'') \<longrightarrow>
             progressRe_FindStringSubmatch l = []"
    using before FindStringSubmatch_none by (simp only: Contains_sublist) blast
  then have "scanProgress_f64 (before @ line # after) = scanProgress_f64 (line # after)"
    by (rule scanProgress_f64_skip)
  also note scanProgress_f64_hit [OF m fs]
  finally show ?thesis by simp
qed

lemma getMdProgress_f64_Inr:
  assumes "getMdProgress_f64 m = Inr p"
  shows "\<exists>before line after err g. m = Scanned (before @ line # after) err \<and>
     (sublist ''check'' line \<or> sublist ''resync'' line) \<and>
     g \<noteq> [] \<and> (\<forall>c\<in>set g. c = CHR ''='' \<or> c = CHR ''>'' \<or> c = CHR ''.'') \<and>
     sublist (''['' @ g @ '']'') line \<and>
     p = f64_mul (f64_div (f64_of_int (int (length (filter (\<lambda>c. c = CHR ''='' \<or> c = CHR ''>'') g))))
                          (f64_of_int (int (length g)))) 100"
proof (cases m)
  case OpenFails
  with assms show ?thesis by simp
next
  case (Scanned ls err)
  with assms have "scanProgress_f64 ls = Some p"
    by (auto split: option.splits if_splits)
  from scanProgress_f64_Some [OF this] obtain before line after w g where
      h: "ls = before @ line # after" "Contains line ''check'' \<or> Contains line ''resync''"
      "progressRe_FindStringSubmatch line = [w, g]"
      "p = f64_mul (f64_div (f64_of_int (int (length (filter (\<lambda>c. c = CHR ''='' \<or> c = CHR ''>'') g))))
                          (f64_of_int (int (length g)))) 100"
    by blast
  from h(3) FindStringSubmatch_sound [of line]
  have "g \<noteq> [] \<and> (\<forall>c\<in>set g. isProgressChar c) \<and> sublist (''['' @ g @ '']'') line"
    by auto
  then have "g \<noteq> [] \<and> (\<forall>c\<in>set g. c = CHR ''='' \<or> c = CHR ''>'' \<or> c = CHR ''.'') \<and> sublist (''['' @ g @ '']'') line"
    by (simp add: isProgressChar_def)
  moreover have "sublist ''check'' line \<or> sublist ''resync'' line"
    using h(2) by (simp only: Contains_sublist)
  ultimately show ?thesis using Scanned h(1,4) by blast
qed

lemma f64_percentage_range:
  assumes "0 \<le> k" "k \<le> L" "0 < L"
  shows "0 \<le> f64_mul (f64_div (f64_of_int k) (f64_of_int L)) 100
       \<and> f64_mul (f64_div (f64_of_int k) (f64_of_int L)) 100 \<le> 100"
proof -
  define K where "K = f64_of_int k"
  define R where "R = f64_of_int L"
  define q where "q = f64_div K R"
  have K0: "0 \<le> K" unfolding K_def f64_of_int_def using assms by (intro f64_round_nonneg) simp
  have "f64_round 1 \<le> R"
    unfolding R_def f64_of_int_def using assms by (intro f64_round_mono) simp_all
  then have R1: "1 \<le> R" by simp
  have KR: "K \<le> R"
    unfolding K_def R_def f64_of_int_def using assms by (intro f64_round_mono) simp_all
  from K0 R1 have d0: "0 \<le> K / R" by simp
  from KR R1 have d1: "K / R \<le> 1" by simp
  have q0: "0 \<le> q" unfolding q_def f64_div_def using d0 by (rule f64_round_nonneg)
  have "q \<le> f64_round 1" unfolding q_def f64_div_def using d0 d1 by (rule f64_round_mono)
  then have q1: "q \<le> 1" by simp
  have "0 \<le> f64_mul q 100"
    unfolding f64_mul_def using q0 by (intro f64_round_nonneg) simp
  moreover have "f64_mul q 100 \<le> f64_round 100"
    unfolding f64_mul_def using q0 q1 by (intro f64_round_mono) simp_all
  ultimately show ?thesis by (simp add: q_def K_def R_def)
qed

lemma f64_percentage_error:
  assumes "0 \<le> k" "k \<le> L" "0 < L" "L < 2 ^ 53"
  shows "\<bar>f64_mul (f64_div (f64_of_int k) (f64_of_int L)) 100 - of_int k / of_int L * 100\<bar>
         \<le> 1 / 2 ^ 45"
proof (cases "k = 0")
  case True
  then show ?thesis by (simp add: f64_mul_def f64_div_def f64_of_int_def)
next
  case False
  with assms have k1: "1 \<le> k" by simp
  define x :: real where "x = of_int k / of_int L"
  define q where "q = f64_round x"
  define v where "v = f64_round (q * 100)"
  define u :: real where "u = 2 powi (- 53)"
  have u: "u = 1 / 2 ^ 53" by (simp add: u_def power_int_minus_divide)
  from assms k1 have "\<bar>k\<bar> < 2 ^ 53" "\<bar>L\<bar> < 2 ^ 53" by simp_all
  then have v_eq: "f64_mul (f64_div (f64_of_int k) (f64_of_int L)) 100 = v"
    by (simp add: f64_mul_def f64_div_def f64_of_int_exact v_def q_def x_def)
  have Lr: "0 < real_of_int L" "real_of_int L \<le> 2 ^ 53" using assms by simp_all
  have kr: "1 \<le> real_of_int k" "real_of_int k \<le> real_of_int L" using k1 assms by simp_all
  have x1: "x \<le> 1" unfolding x_def using Lr kr by simp
  have "1 / real_of_int L \<le> x"
    unfolding x_def using Lr kr by (simp add: divide_right_mono)
  moreover have "1 / 2 ^ 53 \<le> 1 / real_of_int L"
    using Lr by (simp add: frac_le)
  ultimately have xu: "u \<le> x" unfolding u by linarith
  have u0: "0 < u" by (simp add: u_def)
  have lowest: "(2::real) powi (- 1022) \<le> u"
    unfolding u_def by (rule power_int_increasing) simp_all
  from xu u0 have xpos: "0 \<le> x" "\<bar>x\<bar> = x" by simp_all
  from lowest xu xpos have "2 powi (- 1022) \<le> \<bar>x\<bar>" by linarith
  from f64_round_error [OF this] xpos have "\<bar>q - x\<bar> \<le> u * x"
    by (simp add: q_def u_def)
  moreover have "u * x \<le> u * 1" using x1 u0 by (intro mult_left_mono) simp_all
  ultimately have e1: "\<bar>q - x\<bar> \<le> u" by simp
  have "f64_round u \<le> q"
    unfolding q_def using u0 xu by (intro f64_round_mono) simp_all
  moreover have "f64_round u = u"
    using f64_round_exact [of 1 "- 53"] by (simp add: u_def)
  ultimately have qu: "u \<le> q" by simp
  have "q \<le> f64_round 1" unfolding q_def using xpos x1 by (intro f64_round_mono)
  then have q1: "q \<le> 1" by simp
  from qu u0 have ypos: "0 \<le> q * 100" "\<bar>q * 100\<bar> = q * 100" by simp_all
  from qu u0 have "u \<le> q * 100" by simp
  with lowest ypos have "2 powi (- 1022) \<le> \<bar>q * 100\<bar>" by linarith
  from f64_round_error [OF this] ypos have "\<bar>v - q * 100\<bar> \<le> u * (q * 100)"
    by (simp add: v_def u_def)
  moreover have "u * (q * 100) \<le> u * (1 * 100)"
    using q1 u0 by (intro mult_left_mono mult_right_mono) simp_all
  then have "u * (q * 100) \<le> 100 * u" by (simp only: mult_1 mult.commute)
  ultimately have e2: "\<bar>v - q * 100\<bar> \<le> 100 * u" by linarith
  from e1 have "\<bar>q * 100 - x * 100\<bar> \<le> 100 * u" by (simp add: abs_le_iff)
  with e2 have "\<bar>v - x * 100\<bar> \<le> 200 * u" by (simp add: abs_le_iff)
  moreover have "200 * u \<le> 1 / 2 ^ 45" by (simp add: u)
  ultimately have "\<bar>v - x * 100\<bar> \<le> 1 / 2 ^ 45" by linarith
  then show ?thesis by (simp only: v_eq x_def)
qed

lemma f64_round_29_50: "f64_round (29 / 50) = 5224175567749775 / 9007199254740992"
  using f64_round_eval [of "- 1" "29 / 50"]
  by (simp add: round_half_even_def power_int_minus_divide)

lemma f64_round_29_50_100:
  "f64_round (5224175567749775 / 9007199254740992 * 100) = 8162774324609023 / 140737488355328"
  using f64_round_eval [of 5 "5224175567749775 / 9007199254740992 * 100"]
  by (simp add: round_half_even_def power_int_minus_divide)

lemma f64_round_9_21: "f64_round (9 / 21) = 7720456504063707 / 18014398509481984"
  using f64_round_eval [of "- 2" "9 / 21"]
  by (simp add: round_half_even_def power_int_minus_divide)

lemma f64_round_9_21_100:
  "f64_round (7720456504063707 / 18014398509481984 * 100) = 6031606643799771 / 140737488355328"
  using f64_round_eval [of 5 "7720456504063707 / 18014398509481984 * 100"]
  by (simp add: round_half_even_def power_int_minus_divide)

lemma f64_percentage_29_50:
  "f64_mul (f64_div (f64_of_int 29) (f64_of_int 50)) 100 = 8162774324609023 / 140737488355328"
proof -
  have "f64_of_int 29 = 29" "f64_of_int 50 = 50" by (simp_all add: f64_of_int_exact)
  then have "f64_div (f64_of_int 29) (f64_of_int 50) = f64_round (29 / 50)"
    by (simp only: f64_div_def)
  also note f64_round_29_50
  finally have d: "f64_div (f64_of_int 29) (f64_of_int 50) = 5224175567749775 / 9007199254740992" .
  show ?thesis unfolding d f64_mul_def by (rule f64_round_29_50_100)
qed

lemma f64_percentage_9_21:
  "f64_mul (f64_div (f64_of_int 9) (f64_of_int 21)) 100 = 6031606643799771 / 140737488355328"
proof -
  have "f64_of_int 9 = 9" "f64_of_int 21 = 21" by (simp_all add: f64_of_int_exact)
  then have "f64_div (f64_of_int 9) (f64_of_int 21) = f64_round (9 / 21)"
    by (simp only: f64_div_def)
  also note f64_round_9_21
  finally have d: "f64_div (f64_of_int 9) (f64_of_int 21) = 7720456504063707 / 18014398509481984" .
  show ?thesis unfolding d f64_mul_def by (rule f64_round_9_21_100)
qed

subsection \<open>The rounded fill count\<close>

lemma barCompleted_f64_bounds:
  assumes "0 \<le> percent" "percent \<le> 100" "0 < width" "width \<le> 2 ^ 48"
  shows "\<lfloor>real_of_int width * percent / 100\<rfloor> \<le> barCompleted_f64 percent width
       \<and> barCompleted_f64 percent width \<le> \<lfloor>real_of_int width * percent / 100\<rfloor> + 1
       \<and> 0 \<le> barCompleted_f64 percent width
       \<and> barCompleted_f64 percent width \<le> width"
proof -
  let ?w = "real_of_int width"
  define M where "M = f64_round (?w * percent)"
  define D where "D = f64_round (M / 100)"
  define n where "n = \<lfloor>?w * percent / 100\<rfloor>"
  from assms have w53: "\<bar>width\<bar> < 2 ^ 53" by simp
  have wp0: "0 \<le> ?w * percent" using assms by simp
  have wp100: "?w * percent \<le> 100 * ?w"
    using assms mult_left_mono [of percent 100 ?w] by (simp add: mult.commute)
  have M0: "0 \<le> M" unfolding M_def using wp0 by (rule f64_round_nonneg)
  have "M \<le> f64_round (100 * ?w)"
    unfolding M_def using wp0 wp100 by (rule f64_round_mono)
  with assms have Mw: "M \<le> 100 * ?w" by (simp add: f64_round_100_mult)
  have D0: "0 \<le> D" unfolding D_def using M0 by (intro f64_round_nonneg) simp
  have "D \<le> f64_round ?w"
    unfolding D_def using M0 Mw by (intro f64_round_mono) simp_all
  with w53 have Dw: "D \<le> ?w" by (simp add: f64_round_of_int)
  have k: "barCompleted_f64 percent width = \<lfloor>D\<rfloor>"
    using D0 w53 by (simp add: barCompleted_f64_def float64_to_int_def D_def M_def
        f64_div_def f64_mul_def f64_of_int_exact)
  have "0 \<le> ?w * percent / 100" using wp0 by simp
  then have n0: "0 \<le> n" unfolding n_def by (simp only: zero_le_floor)
  have "?w * percent / 100 \<le> ?w" using wp100 by simp
  then have nw: "n \<le> width" unfolding n_def by (simp add: floor_le_iff)
  have nlo: "of_int n \<le> ?w * percent / 100" unfolding n_def by (rule of_int_floor_le)
  have nhi: "?w * percent / 100 < of_int n + 1" unfolding n_def using floor_correct [of "?w * percent / 100"] by linarith
  from nlo have "100 * of_int n \<le> ?w * percent" by simp
  moreover have "0 \<le> 100 * real_of_int n" using n0 by simp
  ultimately have "f64_round (100 * of_int n) \<le> M"
    unfolding M_def by (intro f64_round_mono)
  with n0 nw assms have "100 * of_int n \<le> M" by (simp add: f64_round_100_mult)
  then have "of_int n \<le> M / 100" by simp
  moreover have "0 \<le> real_of_int n" using n0 by simp
  ultimately have "f64_round (of_int n) \<le> D"
    unfolding D_def by (intro f64_round_mono)
  moreover from n0 nw assms have "\<bar>n\<bar> < 2 ^ 53" by simp
  ultimately have "of_int n \<le> D" by (simp add: f64_round_of_int)
  then have lo: "n \<le> \<lfloor>D\<rfloor>" by (simp add: le_floor_iff)
  from nhi have "?w * percent \<le> 100 * of_int (n + 1)" by simp
  with wp0 have "M \<le> f64_round (100 * of_int (n + 1))"
    unfolding M_def by (intro f64_round_mono)
  moreover from n0 nw assms have "0 \<le> n + 1" "n + 1 \<le> 2 ^ 48 + 1" by simp_all
  ultimately have "M \<le> 100 * of_int (n + 1)" by (simp only: f64_round_100_mult)
  then have "M / 100 \<le> of_int (n + 1)" by simp
  moreover have "0 \<le> M / 100" using M0 by simp
  ultimately have "D \<le> f64_round (of_int (n + 1))"
    unfolding D_def by (intro f64_round_mono)
  moreover from n0 nw assms have "\<bar>n + 1\<bar> < 2 ^ 53" by simp
  ultimately have "D \<le> of_int (n + 1)" by (simp only: f64_round_of_int)
  then have hi: "\<lfloor>D\<rfloor> \<le> n + 1" by (simp add: floor_le_iff)
  from D0 have "0 \<le> \<lfloor>D\<rfloor>" by simp
  moreover from Dw have "\<lfloor>D\<rfloor> \<le> width" by (simp add: floor_le_iff)
  ultimately show ?thesis using lo hi k by (simp add: n_def)
qed

lemma barCompleted_f64_100:
  assumes "0 < width" "width \<le> 2 ^ 48"
  shows "barCompleted_f64 100 width = width"
proof -
  from assms have w53: "\<bar>width\<bar> < 2 ^ 53" by simp
  have "f64_round (real_of_int width * 100) = real_of_int width * 100"
    using f64_round_100_mult [of width] assms by (simp add: mult.commute)
  then show ?thesis
    using w53 assms by (simp add: barCompleted_f64_def float64_to_int_def f64_div_def f64_mul_def
        f64_of_int_exact f64_round_of_int)
qed

lemma barCompleted_f64_0: "barCompleted_f64 0 width = 0"
  by (simp add: barCompleted_f64_def f64_mul_def f64_div_def float64_to_int_def)

lemma drawProgressBar_f64_in_range:
  assumes "0 \<le> barCompleted_f64 percent width" "barCompleted_f64 percent width \<le> width"
  shows "drawProgressBar_f64 fmt_f1 percent width =
         Inr (''['' @ replicate (nat (barCompleted_f64 percent width)) (CHR ''='') @
              (if barCompleted_f64 percent width < width then ''>'' else []) @
              replicate (nat (width - barCompleted_f64 percent width - 1)) (CHR ''.'') @
              ''] '' @ fmt_f1 percent @ ''%'')"
proof (cases "barCompleted_f64 percent width < width")
  case True
  then have "barRemaining_f64 percent width = width - barCompleted_f64 percent width - 1"
    by (simp add: barRemaining_f64_def Let_def)
  with True assms show ?thesis
    by (simp add: drawProgressBar_f64_def Let_def Repeat_single)
next
  case False
  with assms have eq: "barCompleted_f64 percent width = width" by simp
  then have "barRemaining_f64 percent width = 0"
    by (simp add: barRemaining_f64_def Let_def)
  with eq assms show ?thesis
    by (simp add: drawProgressBar_f64_def Let_def Repeat_single)
qed

lemma f64_round_7p: "f64_round (7 * (6031606643799771 / 140737488355328)) = 300"
  using f64_round_eval [of 8 "7 * (6031606643799771 / 140737488355328)"]
  by (simp add: round_half_even_def power_int_minus_divide)

lemma barCompleted_f64_7: "barCompleted_f64 (6031606643799771 / 140737488355328) 7 = 3"
proof -
  have "f64_of_int 7 = 7" by (simp add: f64_of_int_exact)
  then have "f64_mul (f64_of_int 7) (6031606643799771 / 140737488355328) = 300"
    by (simp only: f64_mul_def f64_round_7p)
  moreover have "f64_div 300 100 = 3"
    using f64_round_of_int [of 3] by (simp add: f64_div_def)
  ultimately show ?thesis
    by (simp add: barCompleted_f64_def float64_to_int_def)
qed

lemma f64_round_20p:
  "f64_round (20 * (6031606643799771 / 140737488355328)) = 3769754152374857 / 4398046511104"
  using f64_round_eval [of 9 "20 * (6031606643799771 / 140737488355328)"]
  by (simp add: round_half_even_def power_int_minus_divide)

lemma f64_round_20p_100:
  "f64_round (3769754152374857 / 4398046511104 / 100) = 4825285315039817 / 562949953421312"
  using f64_round_eval [of 3 "3769754152374857 / 4398046511104 / 100"]
  by (simp add: round_half_even_def power_int_minus_divide)

lemma barCompleted_f64_20: "barCompleted_f64 (6031606643799771 / 140737488355328) 20 = 8"
proof -
  have "f64_of_int 20 = 20" by (simp add: f64_of_int_exact)
  then have "f64_mul (f64_of_int 20) (6031606643799771 / 140737488355328)
             = 3769754152374857 / 4398046511104"
    by (simp only: f64_mul_def f64_round_20p)
  then have d: "f64_div (f64_mul (f64_of_int 20) (6031606643799771 / 140737488355328)) 100
             = 4825285315039817 / 562949953421312"
    by (simp only: f64_div_def f64_round_20p_100)
  have "float64_to_int (4825285315039817 / 562949953421312) = 8"
    by (simp add: float64_to_int_def)
  then show ?thesis
    by (simp only: barCompleted_f64_def d)
qed

subsection \<open>Where rounding changes nothing\<close>

text \<open>
  The rounded and the exact functions fail on the same inputs with the same error, the
  rounded percentage stays in [0, 100], and for a width up to \<open>2^48\<close> the rounded bar
  at 0 and at 100 percent is the exact one and the rounded counts stay non-negative.
\<close>

lemma scanProgress_f64_None_iff: "scanProgress_f64 ls = None \<longleftrightarrow> scanProgress ls = None"
  by (induction ls) (simp_all add: Let_def del: Contains.simps)

lemma getMdProgress_f64_Inl: "getMdProgress_f64 m = Inl e \<longleftrightarrow> getMdProgress m = Inl e"
proof (cases m)
  case OpenFails
  then show ?thesis by simp
next
  case (Scanned ls err)
  show ?thesis
  proof (cases "scanProgress ls")
    case None
    with scanProgress_f64_None_iff [of ls] Scanned show ?thesis by simp
  next
    case (Some p)
    with scanProgress_f64_None_iff [of ls] have "scanProgress_f64 ls \<noteq> None" by simp
    with Some Scanned show ?thesis by auto
  qed
qed

lemma getMdProgress_f64_bounds:
  assumes "getMdProgress_f64 m = Inr p"
  shows "0 \<le> p \<and> p \<le> 100"
proof -
  from getMdProgress_f64_Inr [OF assms] obtain g where
    ne: "g \<noteq> []"
    and p: "p = f64_mul (f64_div (f64_of_int (int (length (filter (\<lambda>c. c = CHR ''='' \<or> c = CHR ''>'') g))))
                          (f64_of_int (int (length g)))) 100"
    by blast
  have "0 \<le> int (length (filter (\<lambda>c. c = CHR ''='' \<or> c = CHR ''>'') g))"
    "int (length (filter (\<lambda>c. c = CHR ''='' \<or> c = CHR ''>'') g)) \<le> int (length g)"
    "0 < int (length g)"
    using ne by simp_all
  from f64_percentage_range [OF this] p show ?thesis by simp
qed

lemma drawProgressBar_f64_zero_and_full:
  assumes "0 < W" "W \<le> 2 ^ 48"
  shows "drawProgressBar_f64 fmt_f1 0 W = drawProgressBar fmt_f1 0 W
       \<and> drawProgressBar_f64 fmt_f1 100 W = drawProgressBar fmt_f1 100 W"
  using assms drawProgressBar_f64_in_range [of 0 W fmt_f1]
    drawProgressBar_f64_in_range [of 100 W fmt_f1]
    drawProgressBar_in_range [of 0 W fmt_f1] drawProgressBar_in_range [of 100 W fmt_f1]
  by (simp add: barCompleted_f64_0 barCompleted_f64_100 barCompleted_0 barCompleted_100)

lemma drawProgressBar_f64_total:
  assumes "0 \<le> percent" "percent \<le> 100" "0 < width" "width \<le> 2 ^ 48"
  shows "0 \<le> barCompleted_f64 percent width \<and> 0 \<le> barRemaining_f64 percent width
       \<and> (\<exists>s. drawProgressBar_f64 fmt_f1 percent width = Inr s)"
proof -
  from barCompleted_f64_bounds [OF assms]
  have c: "0 \<le> barCompleted_f64 percent width" "barCompleted_f64 percent width \<le> width"
    by simp_all
  then have "0 \<le> barRemaining_f64 percent width"
    by (simp add: barRemaining_f64_def Let_def)
  moreover have "\<exists>s. drawProgressBar_f64 fmt_f1 percent width = Inr s"
    using drawProgressBar_f64_in_range [OF c] by blast
  ultimately show ?thesis using c by simp
qed

section \<open>Specified behaviour\<close>

subsection \<open>Progress percentage\<close>

text \<open>
  C1, as stated, fails: the value returned is not exactly k / L * 100. For a bracket
  with 29 of 50 characters filled the rounded quotient times 100, rounded again, is
  8162774324609023 / 2^47 (57.99999999999999), not 58; for the 21-character bar of a
  real status line with 9 characters filled it is 6031606643799771 / 2^47
  (42.857142857142854), and 9 / 21 * 100 is no binary64 number at all.
\<close>

theorem getMdProgress_f64_not_exact_counterexample:
  "getMdProgress_f64
     (Scanned [''md0 : active raid1 sdb1[1] sda1[0]'',
               ''      [=============================.....................]  check = 58.0% (29/50)''] False)
     = Inr (8162774324609023 / 140737488355328)
   \<and> (8162774324609023 / 140737488355328 :: real) \<noteq> 29 / 50 * 100
   \<and> getMdProgress_f64
     (Scanned [''md0 : active raid1 sdb1[1] sda1[0]'',
               ''      [========>............]  check = 42.0% (123456/654321) finish=37.2min speed=12345K/sec''] False)
     = Inr (6031606643799771 / 140737488355328)
   \<and> (6031606643799771 / 140737488355328 :: real) \<noteq> 9 / 21 * 100"
proof -
  have a: "getMdProgress_f64
     (Scanned [''md0 : active raid1 sdb1[1] sda1[0]'',
               ''      [=============================.....................]  check = 58.0% (29/50)''] False)
     = Inr (f64_mul (f64_div (f64_of_int 29) (f64_of_int 50)) 100)"
    by (simp add: isProgressChar_def)
  have b: "getMdProgress_f64
     (Scanned [''md0 : active raid1 sdb1[1] sda1[0]'',
               ''      [========>............]  check = 42.0% (123456/654321) finish=37.2min speed=12345K/sec''] False)
     = Inr (f64_mul (f64_div (f64_of_int 9) (f64_of_int 21)) 100)"
    by (simp add: isProgressChar_def)
  have c: "(8162774324609023 / 140737488355328 :: real) \<noteq> 29 / 50 * 100"
    "(6031606643799771 / 140737488355328 :: real) \<noteq> 9 / 21 * 100"
    by simp_all
  from a b c show ?thesis by (simp only: f64_percentage_29_50 f64_percentage_9_21) simp
qed

text \<open>
  C1, amended. Take the first line that holds "check" or "resync" and also a bracketed
  non-empty run of \<open>=\<close>, \<open>>\<close>, \<open>.\<close> (no earlier line with a marker has such a
  bracket), and in it the first such bracket, of length L with k characters \<open>=\<close> or
  \<open>>\<close> (nothing before it on the line is such a bracket; other brackets, like the
  device-state bracket \<^verbatim>\<open>[UUU_]\<close>, may stand before it). Then getMdProgress returns,
  whatever follows and however the scan ends, the float64 value of k / L * 100 as the
  code computes it: float64(k) / float64(L) rounded, times 100, rounded again. That
  value lies in [0, 100] and, for L below \<open>2^53\<close>, is within \<open>2^(-45)\<close> of k / L * 100.
  Conversely every value getMdProgress returns is this value for a bracket made of the
  three characters only, on a line with a marker.
\<close>

theorem getMdProgress_f64_first_progress_bracket:
  assumes marker: "sublist ''check'' line \<or> sublist ''resync'' line"
    and line: "line = pre @ ''['' @ g @ '']'' @ post"
    and g: "g \<noteq> []" "\<forall>c\<in>set g. c = CHR ''='' \<or> c = CHR ''>'' \<or> c = CHR ''.''"
    and pre: "\<not> (\<exists>h. h \<noteq> [] \<and> (\<forall>c\<in>set h. isProgressChar c) \<and> sublist (''['' @ h @ '']'') pre)"
    and before: "\<forall>l\<in>set before. (sublist ''check'' l \<or> sublist ''resync'' l) \<longrightarrow>
        \<not> (\<exists>h. h \<noteq> [] \<and> (\<forall>c\<in>set h. isProgressChar c) \<and> sublist (''['' @ h @ '']'') l)"
  shows "\<exists>v. getMdProgress_f64 (Scanned (before @ line # after) err) = Inr v
           \<and> v = f64_round (f64_round (f64_round (real (length (filter (\<lambda>c. c = CHR ''='' \<or> c = CHR ''>'') g)))
                                         / f64_round (real (length g))) * 100)
           \<and> 0 \<le> v \<and> v \<le> 100
           \<and> (length g < 2 ^ 53 \<longrightarrow>
                \<bar>v - real (length (filter (\<lambda>c. c = CHR ''='' \<or> c = CHR ''>'') g)) / real (length g) * 100\<bar>
                  \<le> 1 / 2 ^ 45)
           \<and> (\<forall>m p. getMdProgress_f64 m = Inr p \<longrightarrow>
                (\<exists>before' line' after' err' g'. m = Scanned (before' @ line' # after') err' \<and>
                   (sublist ''check'' line' \<or> sublist ''resync'' line') \<and>
                   g' \<noteq> [] \<and> (\<forall>c\<in>set g'. c = CHR ''='' \<or> c = CHR ''>'' \<or> c = CHR ''.'') \<and>
                   sublist (''['' @ g' @ '']'') line' \<and>
                   p = f64_round (f64_round (f64_round (real (length (filter (\<lambda>c. c = CHR ''='' \<or> c = CHR ''>'') g')))
                                            / f64_round (real (length g'))) * 100)))"
proof -
  let ?k = "int (length (filter (\<lambda>c. c = CHR ''='' \<or> c = CHR ''>'') g))"
  let ?L = "int (length g)"
  let ?v = "f64_mul (f64_div (f64_of_int ?k) (f64_of_int ?L)) 100"
  have kL: "0 \<le> ?k" "?k \<le> ?L" "0 < ?L" using g(1) by simp_all
  have r: "getMdProgress_f64 (Scanned (before @ line # after) err) = Inr ?v"
    by (rule getMdProgress_f64_first_bracket [OF assms])
  have v: "?v = f64_round (f64_round (f64_round (real (length (filter (\<lambda>c. c = CHR ''='' \<or> c = CHR ''>'') g)))
                                         / f64_round (real (length g))) * 100)"
    by (simp add: f64_mul_def f64_div_def f64_of_int_def)
  have rg: "0 \<le> ?v \<and> ?v \<le> 100" by (rule f64_percentage_range [OF kL])
  have er: "length g < 2 ^ 53 \<longrightarrow>
        \<bar>?v - real (length (filter (\<lambda>c. c = CHR ''='' \<or> c = CHR ''>'') g)) / real (length g) * 100\<bar>
          \<le> 1 / 2 ^ 45"
  proof
    assume "length g < 2 ^ 53"
    then have "?L < 2 ^ 53" by (metis of_nat_less_iff of_nat_numeral of_nat_power)
    from f64_percentage_error [OF kL this] show
      "\<bar>?v - real (length (filter (\<lambda>c. c = CHR ''='' \<or> c = CHR ''>'') g)) / real (length g) * 100\<bar>
          \<le> 1 / 2 ^ 45" by simp
  qed
  have cv: "\<forall>m p. getMdProgress_f64 m = Inr p \<longrightarrow>
                (\<exists>before' line' after' err' g'. m = Scanned (before' @ line' # after') err' \<and>
                   (sublist ''check'' line' \<or> sublist ''resync'' line') \<and>
                   g' \<noteq> [] \<and> (\<forall>c\<in>set g'. c = CHR ''='' \<or> c = CHR ''>'' \<or> c = CHR ''.'') \<and>
                   sublist (''['' @ g' @ '']'') line' \<and>
                   p = f64_round (f64_round (f64_round (real (length (filter (\<lambda>c. c = CHR ''='' \<or> c = CHR ''>'') g')))
                                            / f64_round (real (length g'))) * 100))"
    using getMdProgress_f64_Inr by (simp add: f64_mul_def f64_div_def f64_of_int_def)
  from r v rg er cv show ?thesis by blast
qed

theorem getMdProgress_f64_first_progress_bracket_witness:
  "getMdProgress_f64
     (Scanned [''md0 : active raid6 sdd[3] sdc[2] sdb[1] sda[0]'',
               ''      [4/3] [UUU_] [========>............]  check = 42.9% (9/21)'',
               ''      [====>.....]  resync = 50.0%''] False)
     = Inr (6031606643799771 / 140737488355328)
   \<and> \<bar>6031606643799771 / 140737488355328 - 9 / 21 * 100\<bar> \<le> (1 / 2 ^ 45 :: real)"
proof -
  let ?pre = "''      [4/3] [UUU_] ''"
  let ?g = "''========>............''"
  let ?line = "''      [4/3] [UUU_] [========>............]  check = 42.9% (9/21)''"
  let ?m = "Scanned [''md0 : active raid6 sdd[3] sdc[2] sdb[1] sda[0]'', ?line,
               ''      [====>.....]  resync = 50.0%''] False"
  have marker: "sublist ''check'' ?line \<or> sublist ''resync'' ?line"
    by (simp add: Contains_sublist [symmetric])
  have line: "?line = ?pre @ ''['' @ ?g @ '']'' @ ''  check = 42.9% (9/21)''"
    by simp
  have g: "?g \<noteq> []" "\<forall>c\<in>set ?g. c = CHR ''='' \<or> c = CHR ''>'' \<or> c = CHR ''.''"
    by simp_all
  have "progressRe_FindStringSubmatch ?pre = []"
    by (simp add: isProgressChar_def)
  then have pre: "\<not> (\<exists>h. h \<noteq> [] \<and> (\<forall>c\<in>set h. isProgressChar c) \<and> sublist (''['' @ h @ '']'') ?pre)"
    by (simp only: FindStringSubmatch_nonempty_iff [symmetric] not_not)
  have before: "\<forall>l\<in>set [''md0 : active raid6 sdd[3] sdc[2] sdb[1] sda[0]''].
       (sublist ''check'' l \<or> sublist ''resync'' l) \<longrightarrow>
        \<not> (\<exists>h. h \<noteq> [] \<and> (\<forall>c\<in>set h. isProgressChar c) \<and> sublist (''['' @ h @ '']'') l)"
    by (simp add: Contains_sublist [symmetric])
  from getMdProgress_f64_first_progress_bracket [OF marker line g pre before,
      of "[''      [====>.....]  resync = 50.0%'']" False]
  obtain v where r: "getMdProgress_f64 ?m = Inr v"
    and e: "length ?g < 2 ^ 53 \<longrightarrow>
        \<bar>v - real (length (filter (\<lambda>c. c = CHR ''='' \<or> c = CHR ''>'') ?g)) / real (length ?g) * 100\<bar>
          \<le> 1 / 2 ^ 45"
    by auto
  have "getMdProgress_f64 ?m = Inr (f64_mul (f64_div (f64_of_int 9) (f64_of_int 21)) 100)"
    by (simp add: isProgressChar_def)
  then have c: "getMdProgress_f64 ?m = Inr (6031606643799771 / 140737488355328)"
    by (simp only: f64_percentage_9_21)
  with r have v: "v = 6031606643799771 / 140737488355328" by simp
  from e have "\<bar>v - 9 / 21 * 100\<bar> \<le> 1 / 2 ^ 45" by simp
  with v c show ?thesis by simp
qed

subsection \<open>Time left\<close>

text \<open>
  C2. The pattern of getMdTimeLeft stops the token at the next backslash or letter s, not
  at white space. On the status line of a running check, where \<^verbatim>\<open>finish=37.2min\<close> is
  followed by \<^verbatim>\<open> speed=...\<close>, the function returns the token with the blank after it,
  \<^verbatim>\<open>"37.2min "\<close>, not \<^verbatim>\<open>"37.2min"\<close>.
\<close>

theorem getMdTimeLeft_keeps_trailing_space:
  "getMdTimeLeft
     (Scanned [''md0 : active raid6 sdd[3] sdc[2] sdb[1] sda[0]'',
               ''      976507904 blocks level 6, 512k chunk [4/3] [UUU_]'',
               ''      [========>............]  check = 42.0% (123456/654321) finish=37.2min speed=12345K/sec''] False)
   = Inr ''37.2min ''
   \<and> ''37.2min '' \<noteq> ''37.2min''"
  by (simp add: finishRe_at_def isFinishChar_def)

subsection \<open>Which reads fail\<close>

text \<open>
  C3, as stated, fails: on content that opens and scans without error but has no
  progress bracket on a marker line, getMdProgress returns the error "no progress
  information found", and the progress command ends in \<^verbatim>\<open>log.Fatalf\<close> on it.
\<close>

theorem missing_progress_is_an_error_counterexample:
  "getMdProgress (Scanned [''md0 : active raid1 sdb1[1] sda1[0]'',
                           ''      check = 0.0% (0/1000)''] False)
     = Inl NoProgressInformation
   \<and> progressCmd (\<lambda>p. [])
       (\<lambda>k. Scanned [''md0 : active raid1 sdb1[1] sda1[0]'',
                      ''      check = 0.0% (0/1000)''] False)
     = (Fatal ''Error getting progress'' NoProgressInformation, [])"
  by (simp add: progressCmd_def isProgressChar_def)

text \<open>
  C3, amended. On content that opens and scans without error, getMdChecking and
  getMdTimeLeft never return an error; getMdProgress returns an error exactly when no
  line with "check" or "resync" holds a bracketed non-empty run of \<open>=\<close>, \<open>>\<close>, \<open>.\<close>,
  and that error is always "no progress information found". The progress command, once
  the count is not zero, exits through \<^verbatim>\<open>log.Fatalf\<close> on any error of getMdProgress.
\<close>

theorem readers_fail_on_readable_content_only_without_progress:
  "\<not> isl (getMdChecking (Scanned ls False))
   \<and> \<not> isl (getMdTimeLeft (Scanned ls False))
   \<and> (getMdProgress (Scanned ls False) = Inl NoProgressInformation \<longleftrightarrow>
        \<not> (\<exists>line\<in>set ls. (sublist ''check'' line \<or> sublist ''resync'' line) \<and>
             (\<exists>g. g \<noteq> [] \<and> (\<forall>c\<in>set g. isProgressChar c) \<and> sublist (''['' @ g @ '']'') line)))
   \<and> (isl (getMdProgress (Scanned ls False)) \<longrightarrow>
        getMdProgress (Scanned ls False) = Inl NoProgressInformation)
   \<and> (getMdChecking (reads 0) = Inr count \<and> count \<noteq> 0 \<and> getMdProgress (reads 1) = Inl e \<longrightarrow>
        progressCmd fmt_f1 reads = (Fatal ''Error getting progress'' e, []))"
proof -
  have a: "\<not> isl (getMdChecking (Scanned ls False))" by simp
  have b: "\<not> isl (getMdTimeLeft (Scanned ls False))" by (simp split: option.splits)
  have "getMdProgress (Scanned ls False) = Inl NoProgressInformation \<longleftrightarrow> scanProgress ls = None"
    by (simp split: option.splits)
  also have "\<dots> \<longleftrightarrow> \<not> (\<exists>line\<in>set ls. (sublist ''check'' line \<or> sublist ''resync'' line) \<and>
             (\<exists>g. g \<noteq> [] \<and> (\<forall>c\<in>set g. isProgressChar c) \<and> sublist (''['' @ g @ '']'') line))"
    unfolding scanProgress_None_iff Contains_sublist
    using FindStringSubmatch_nonempty_iff by blast
  finally have c: "getMdProgress (Scanned ls False) = Inl NoProgressInformation \<longleftrightarrow>
        \<not> (\<exists>line\<in>set ls. (sublist ''check'' line \<or> sublist ''resync'' line) \<and>
             (\<exists>g. g \<noteq> [] \<and> (\<forall>c\<in>set g. isProgressChar c) \<and> sublist (''['' @ g @ '']'') line))" .
  have d: "isl (getMdProgress (Scanned ls False)) \<longrightarrow>
        getMdProgress (Scanned ls False) = Inl NoProgressInformation"
    by (simp split: option.splits)
  have e: "getMdChecking (reads 0) = Inr count \<and> count \<noteq> 0 \<and> getMdProgress (reads 1) = Inl e \<longrightarrow>
        progressCmd fmt_f1 reads = (Fatal ''Error getting progress'' e, [])"
    by (simp add: progressCmd_def)
  from a b c d e show ?thesis by blast
qed

theorem readers_fail_on_readable_content_only_without_progress_witness:
  "getMdProgress (Scanned [''      resync=DELAYED''] False) = Inl NoProgressInformation
   \<and> getMdChecking (Scanned [''      resync=DELAYED''] False) = Inr 0
   \<and> getMdTimeLeft (Scanned [''      resync=DELAYED''] False) = Inr []
   \<and> progressCmd (\<lambda>p. [])
       (\<lambda>k. Scanned [''md0 : active raid1 sdb1[1] sda1[0]'', ''      check = 0.0% (0/1000)''] False)
     = (Fatal ''Error getting progress'' NoProgressInformation, [])"
proof -
  let ?m = "Scanned [''md0 : active raid1 sdb1[1] sda1[0]'', ''      check = 0.0% (0/1000)''] False"
  have 1: "getMdChecking ?m = Inr 1" by simp
  have 2: "getMdProgress ?m = Inl NoProgressInformation" by (simp add: isProgressChar_def)
  have 3: "getMdProgress (Scanned [''      resync=DELAYED''] False) = Inl NoProgressInformation"
    by (simp add: isProgressChar_def)
  from readers_fail_on_readable_content_only_without_progress
     [of "[''      resync=DELAYED'']" "\<lambda>k. ?m" 1 NoProgressInformation "\<lambda>p. []"] 1 2 3
  show ?thesis by (simp add: finishRe_at_def)
qed

subsection \<open>The empty bracket\<close>

text \<open>
  C4. If on every line with "check" or "resync" each opening bracket is followed at once
  by the closing one (the only brackets there are empty ones), getMdProgress returns no
  value: its result is the error "no progress information found" (the scanner's error
  when the scan ended with one). No division by zero happens on any input: whenever the
  pattern matches a line, the matched group, whose length is the divisor, is not empty.
\<close>

theorem getMdProgress_empty_bracket:
  assumes "\<forall>l\<in>set ls. (sublist ''check'' l \<or> sublist ''resync'' l) \<longrightarrow>
             (\<forall>pre post. l = pre @ ''['' @ post \<longrightarrow> prefix '']'' post)"
  shows "getMdProgress (Scanned ls err) = Inl (if err then FailedToRead else NoProgressInformation)
       \<and> (\<forall>line. 1 < length (progressRe_FindStringSubmatch line) \<longrightarrow>
            0 < length (progressRe_FindStringSubmatch line ! 1))"
proof -
  have "\<forall>l\<in>set ls. (Contains l ''check'' \<or> Contains l ''resync'') \<longrightarrow>
          progressRe_FindStringSubmatch l = []"
    using assms empty_brackets_no_match by (simp only: Contains_sublist) blast
  then have "scanProgress ls = None" by (simp only: scanProgress_None_iff)
  then have "getMdProgress (Scanned ls err) = Inl (if err then FailedToRead else NoProgressInformation)"
    by simp
  moreover have "\<forall>line. 1 < length (progressRe_FindStringSubmatch line) \<longrightarrow>
            0 < length (progressRe_FindStringSubmatch line ! 1)"
  proof (intro allI impI)
    fix line
    assume "1 < length (progressRe_FindStringSubmatch line)"
    then have "progressRe_FindStringSubmatch line \<noteq> []" by auto
    from FindStringSubmatch_sound [OF this]
    show "0 < length (progressRe_FindStringSubmatch line ! 1)" by auto
  qed
  ultimately show ?thesis ..
qed

theorem getMdProgress_empty_bracket_witness:
  "getMdProgress
     (Scanned [''md0 : active raid1 sdb1[1] sda1[0]'',
               ''      []  check =  0.0% (0/1000) finish=10.0min''] False)
   = Inl NoProgressInformation"
proof -
  let ?l = "''      []  check =  0.0% (0/1000) finish=10.0min''"
  have "?l = ''      '' @ ''[]'' @ ''  check =  0.0% (0/1000) finish=10.0min''" by simp
  then have l: "\<forall>pre post. ?l = pre @ ''['' @ post \<longrightarrow> prefix '']'' post"
    by (rule only_empty_bracket) simp_all
  have m: "\<not> (sublist ''check'' ''md0 : active raid1 sdb1[1] sda1[0]''
             \<or> sublist ''resync'' ''md0 : active raid1 sdb1[1] sda1[0]'')"
    by (simp add: Contains_sublist [symmetric])
  have "\<forall>l\<in>set [''md0 : active raid1 sdb1[1] sda1[0]'', ?l].
          (sublist ''check'' l \<or> sublist ''resync'' l) \<longrightarrow>
             (\<forall>pre post. l = pre @ ''['' @ post \<longrightarrow> prefix '']'' post)"
    using l m by simp
  from getMdProgress_empty_bracket [OF this, of False]
  show ?thesis by simp
qed

subsection \<open>Active check count\<close>

text \<open>
  C5. When the file opens and the scanner ends without an error, getMdChecking returns
  the number of lines that have the literal text "check" somewhere in them: a contiguous
  sublist of the line, with no regard for word boundaries, so a line reading "checking"
  or "recheck" counts.
\<close>

theorem getMdChecking_counts_substring_lines:
  "getMdChecking (Scanned ls False) = Inr (int (length (filter (sublist ''check'') ls)))
   \<and> getMdChecking (Scanned [''md0 : checking'', ''md1 : idle'', ''recheck''] False) = Inr 2"
proof -
  have "(\<lambda>l. Contains l ''check'') = sublist ''check''"
    by (rule ext) (simp only: Contains_sublist)
  then have "getMdChecking (Scanned ls False) = Inr (int (length (filter (sublist ''check'') ls)))"
    by (simp add: countChecking_filter)
  moreover have "getMdChecking (Scanned [''md0 : checking'', ''md1 : idle'', ''recheck''] False) = Inr 2"
    by simp
  ultimately show ?thesis by simp
qed

subsection \<open>The progress bar\<close>

text \<open>
  C6, as stated, fails: the number of fill characters is not always
  floor (width * percent / 100). At width 7 and percent 6031606643799771 / 2^47
  (42.857142857142854, what getMdProgress returns for 9 of 21) the product
  7 * percent rounds up to 300, the bar gets 3 fill characters, and
  floor (width * percent / 100) is 2.
\<close>

theorem drawProgressBar_f64_fill_counterexample:
  "(0::real) \<le> 6031606643799771 / 140737488355328
   \<and> (6031606643799771 / 140737488355328 :: real) \<le> 100
   \<and> \<lfloor>real_of_int 7 * (6031606643799771 / 140737488355328) / 100\<rfloor> = 2
   \<and> barCompleted_f64 (6031606643799771 / 140737488355328) 7 = 3
   \<and> drawProgressBar_f64 (\<lambda>p. ''42.9'') (6031606643799771 / 140737488355328) 7
       = Inr ''[===>...] 42.9%''"
proof -
  have "drawProgressBar_f64 (\<lambda>p. ''42.9'') (6031606643799771 / 140737488355328) 7
       = Inr ''[===>...] 42.9%''"
    using drawProgressBar_f64_in_range [of "6031606643799771 / 140737488355328" 7 "\<lambda>p. ''42.9''"]
    by (simp add: barCompleted_f64_7 numeral_eq_Suc)
  then show ?thesis by (simp add: barCompleted_f64_7)
qed

text \<open>
  C6, amended. For a percentage in [0, 100] and a positive width up to \<open>2^48\<close>,
  drawProgressBar returns (it does not panic) the text "[" bar "] " percentage "%",
  where bar is c characters \<open>=\<close>, then one \<open>>\<close> if c is below the width, then
  characters \<open>.\<close> up to the width: bar has exactly width characters. Here c is
  int(float64(width) * percent / 100) as the code computes it, the product rounded, the
  quotient rounded again, the result truncated: c is floor (width * percent / 100) or
  one more, and never more than the width. At 100 percent bar is width characters \<open>=\<close>
  and nothing else.
\<close>

theorem drawProgressBar_f64_width_exact:
  assumes "0 \<le> percent" "percent \<le> 100" "0 < width" "width \<le> 2 ^ 48"
  shows "\<exists>bar. drawProgressBar_f64 fmt_f1 percent width
                  = Inr (''['' @ bar @ ''] '' @ fmt_f1 percent @ ''%'')
           \<and> bar = replicate (nat (barCompleted_f64 percent width)) (CHR ''='') @
                   (if barCompleted_f64 percent width < width then ''>'' else []) @
                   replicate (nat (width - barCompleted_f64 percent width - 1)) (CHR ''.'')
           \<and> int (length bar) = width
           \<and> barCompleted_f64 percent width
               = \<lfloor>f64_round (f64_round (real_of_int width * percent) / 100)\<rfloor>
           \<and> \<lfloor>real_of_int width * percent / 100\<rfloor> \<le> barCompleted_f64 percent width
           \<and> barCompleted_f64 percent width \<le> \<lfloor>real_of_int width * percent / 100\<rfloor> + 1
           \<and> barCompleted_f64 percent width \<le> width
           \<and> (percent = 100 \<longrightarrow> bar = replicate (nat width) (CHR ''=''))"
proof -
  let ?k = "barCompleted_f64 percent width"
  let ?bar = "replicate (nat ?k) (CHR ''='') @ (if ?k < width then ''>'' else []) @
              replicate (nat (width - ?k - 1)) (CHR ''.'')"
  from barCompleted_f64_bounds [OF assms]
  have b: "\<lfloor>real_of_int width * percent / 100\<rfloor> \<le> ?k"
    "?k \<le> \<lfloor>real_of_int width * percent / 100\<rfloor> + 1" "0 \<le> ?k" "?k \<le> width"
    by simp_all
  have d: "drawProgressBar_f64 fmt_f1 percent width
             = Inr (''['' @ ?bar @ ''] '' @ fmt_f1 percent @ ''%'')"
    using drawProgressBar_f64_in_range [OF b(3,4)] by simp
  have l: "int (length ?bar) = width" using b(3,4) by auto
  from assms have w53: "\<bar>width\<bar> < 2 ^ 53" by simp
  have "0 \<le> f64_round (f64_round (real_of_int width * percent) / 100)"
    using assms by (intro f64_round_nonneg divide_nonneg_nonneg mult_nonneg_nonneg) simp_all
  then have k: "?k = \<lfloor>f64_round (f64_round (real_of_int width * percent) / 100)\<rfloor>"
    using w53 by (simp add: barCompleted_f64_def float64_to_int_def f64_div_def f64_mul_def
        f64_of_int_exact)
  have f: "percent = 100 \<longrightarrow> ?bar = replicate (nat width) (CHR ''='')"
    using barCompleted_f64_100 [OF assms(3,4)] by simp
  from d l k b(1,2,4) f show ?thesis by blast
qed

theorem drawProgressBar_f64_width_exact_witness:
  "(0::real) \<le> 6031606643799771 / 140737488355328
   \<and> (6031606643799771 / 140737488355328 :: real) \<le> 100 \<and> (0::int) < 20 \<and> (20::int) \<le> 2 ^ 48
   \<and> drawProgressBar_f64 (\<lambda>p. ''42.9'') (6031606643799771 / 140737488355328) 20
       = Inr ''[========>...........] 42.9%''
   \<and> length ''========>...........'' = 20"
  using drawProgressBar_f64_width_exact [of "6031606643799771 / 140737488355328" 20 "\<lambda>p. ''42.9''"]
  by (simp add: barCompleted_f64_20 numeral_eq_Suc)




subsection \<open>The poll loop and the reboot\<close>

text \<open>
  C8. Wherever the loop stands (at open \<open>i\<close>, with \<open>tr\<close> behind it): if the next
  \<open>n\<close> status reads fail, then after \<open>n\<close> iterations the loop has, for each of them,
  logged the error and slept the backoff, nothing else; it has not ended (it goes on
  exactly as the loop started at open \<open>i + n\<close> would, and with no iterations left to look
  at it is still polling); it has not run the reboot. This holds for every \<open>n\<close>, so a
  sequence of failing reads never ends the loop. The backoff (10 s) is shorter than the
  poll interval (100 s).
\<close>

theorem read_failures_are_retried:
  assumes "\<forall>k<n. isl (getMdChecking (reads (i + k)))"
  shows "pollLoop (n + m) fmt_f1 reads i tr
           = pollLoop m fmt_f1 reads (i + n) (tr @ readFailureTrace reads i n)
       \<and> pollLoop n fmt_f1 reads i tr = (OutOfFuel, i + n, tr @ readFailureTrace reads i n)
       \<and> RunReboot \<notin> set (readFailureTrace reads i n)
       \<and> (i = 0 \<longrightarrow> waitForRaidAndReboot n fmt_f1 reads reboot_fails forced
                        = (StillPolling, readFailureTrace reads 0 n))
       \<and> readErrorBackoff < pollInterval"
proof -
  have l: "pollLoop (n + m) fmt_f1 reads i tr
           = pollLoop m fmt_f1 reads (i + n) (tr @ readFailureTrace reads i n)" for m tr
    by (rule pollLoop_read_failures [OF assms])
  from l [of 0 tr]
  have o: "pollLoop n fmt_f1 reads i tr = (OutOfFuel, i + n, tr @ readFailureTrace reads i n)"
    by simp
  from l [of 0 "[]"]
  have w: "i = 0 \<longrightarrow> waitForRaidAndReboot n fmt_f1 reads reboot_fails forced
                        = (StillPolling, readFailureTrace reads 0 n)"
    by (auto simp: waitForRaidAndReboot_def)
  have b: "readErrorBackoff < pollInterval"
    by (simp add: readErrorBackoff_def pollInterval_def)
  from l [of m tr] o w b readFailureTrace_no_reboot [of reads i n] show ?thesis by blast
qed

theorem read_failures_are_retried_witness:
  "waitForRaidAndReboot 3 (\<lambda>p. []) (\<lambda>k. if k = 1 then Scanned [''md0 : check''] True else OpenFails)
     False False
   = (StillPolling,
      [LogPrintf ''Error checking RAID status'' FailedToOpen, Sleep 10,
       LogPrintf ''Error checking RAID status'' FailedToRead, Sleep 10,
       LogPrintf ''Error checking RAID status'' FailedToOpen, Sleep 10])"
proof -
  let ?reads = "\<lambda>k::nat. if k = 1 then Scanned [''md0 : check''] True else OpenFails"
  have h: "\<forall>k<3. isl (getMdChecking (?reads (0 + k)))" by simp
  have t: "readFailureTrace ?reads 0 3 =
      [LogPrintf ''Error checking RAID status'' FailedToOpen, Sleep 10,
       LogPrintf ''Error checking RAID status'' FailedToRead, Sleep 10,
       LogPrintf ''Error checking RAID status'' FailedToOpen, Sleep 10]"
    by (simp add: readFailureTrace_def readErrorBackoff_def upt_conv_Cons numeral_eq_Suc del: upt_Suc)
  from read_failures_are_retried [OF h, of 0 "\<lambda>p. []" "[]" False False] t
  show ?thesis by simp
qed

text \<open>
  C9. If a run of waitForRaidAndReboot runs the reboot, then the loop ended by its break,
  the read it ended on gave count 0, the next read (the final check) gave count 0 too,
  and the reboot comes right after, as the last thing done. If the loop ended by its
  break and the final check's read fails, the run ends in \<^verbatim>\<open>log.Fatalf\<close> with nothing
  done after the loop: no reboot, no further read, no sleep.
\<close>

theorem reboot_only_after_confirmed_idle:
  "(RunReboot \<in> set (snd (waitForRaidAndReboot fuel fmt_f1 reads reboot_fails forced)) \<longrightarrow>
      (\<exists>j tr. pollLoop fuel fmt_f1 reads 0 [] = (Break, j, tr) \<and> RunReboot \<notin> set tr \<and>
         0 < j \<and> getMdChecking (reads (j - 1)) = Inr 0 \<and> getMdChecking (reads j) = Inr 0 \<and>
         snd (waitForRaidAndReboot fuel fmt_f1 reads reboot_fails forced)
           = tr @ [Print ''RAID check complete. Rebooting...'', RunReboot]))
   \<and> (\<forall>j tr err. pollLoop fuel fmt_f1 reads 0 [] = (Break, j, tr) \<and>
         getMdChecking (reads j) = Inl err \<longrightarrow>
         waitForRaidAndReboot fuel fmt_f1 reads reboot_fails forced
           = (Fatal ''Error in final RAID check'' err, tr) \<and> RunReboot \<notin> set tr)"
proof (intro conjI impI allI)
  assume r: "RunReboot \<in> set (snd (waitForRaidAndReboot fuel fmt_f1 reads reboot_fails forced))"
  obtain ex j tr where p: "pollLoop fuel fmt_f1 reads 0 [] = (ex, j, tr)"
    by (cases "pollLoop fuel fmt_f1 reads 0 []") auto
  from pollLoop_no_reboot [OF p] have nr: "RunReboot \<notin> set tr" by simp
  from r p nr have ex: "ex = Break"
    by (cases ex) (simp_all add: waitForRaidAndReboot_def)
  from pollLoop_Break p ex have j: "0 < j" "getMdChecking (reads (j - 1)) = Inr 0"
    by blast+
  from r p nr ex have f: "getMdChecking (reads j) = Inr 0"
    by (auto simp: waitForRaidAndReboot_def Let_def split: sum.splits if_splits)
  with p ex have "snd (waitForRaidAndReboot fuel fmt_f1 reads reboot_fails forced)
           = tr @ [Print ''RAID check complete. Rebooting...'', RunReboot]"
    by (simp add: waitForRaidAndReboot_def Let_def)
  with p ex nr j f
  show "\<exists>j tr. pollLoop fuel fmt_f1 reads 0 [] = (Break, j, tr) \<and> RunReboot \<notin> set tr \<and>
         0 < j \<and> getMdChecking (reads (j - 1)) = Inr 0 \<and> getMdChecking (reads j) = Inr 0 \<and>
         snd (waitForRaidAndReboot fuel fmt_f1 reads reboot_fails forced)
           = tr @ [Print ''RAID check complete. Rebooting...'', RunReboot]"
    by blast
next
  fix j tr err
  assume h: "pollLoop fuel fmt_f1 reads 0 [] = (Break, j, tr) \<and> getMdChecking (reads j) = Inl err"
  then show "waitForRaidAndReboot fuel fmt_f1 reads reboot_fails forced
           = (Fatal ''Error in final RAID check'' err, tr)"
    by (simp add: waitForRaidAndReboot_def)
  from h pollLoop_no_reboot [of fuel fmt_f1 reads 0 "[]" Break j tr]
  show "RunReboot \<notin> set tr" by simp
qed

theorem reboot_only_after_confirmed_idle_witness:
  "waitForRaidAndReboot 2 (\<lambda>p. ''30.0'')
     (\<lambda>k. if k < 3 then Scanned [''md0 : active raid1 sdb1[1] sda1[0]'',
                                   ''      [=====>..............]  check = 30.0% (1/3) finish=5.0min''] False
           else Scanned [''md0 : active raid1 sdb1[1] sda1[0]''] False) False False
   = (Returned,
      [Sleep 100, Print clearScreen, PrintTime, Print ''Reboot will occur in 5.0min'',
       Print ''[===============>..................................] 30.0%'',
       Print ''RAID check complete. Rebooting...'', RunReboot])
   \<and> waitForRaidAndReboot 1 (\<lambda>p. [])
       (\<lambda>k. if k = 0 then Scanned [''md0 : active raid1 sdb1[1] sda1[0]''] False else OpenFails)
       False False
     = (Fatal ''Error in final RAID check'' FailedToOpen, [])"
proof -
  let ?busy = "Scanned [''md0 : active raid1 sdb1[1] sda1[0]'',
                 ''      [=====>..............]  check = 30.0% (1/3) finish=5.0min''] False"
  let ?idle = "Scanned [''md0 : active raid1 sdb1[1] sda1[0]''] False"
  let ?reads = "\<lambda>k::nat. if k < 3 then ?busy else ?idle"
  let ?reads' = "\<lambda>k::nat. if k = 0 then ?idle else OpenFails"
  have c: "getMdChecking ?busy = Inr 1" by simp
  have i: "getMdChecking ?idle = Inr 0" by simp
  have t: "getMdTimeLeft ?busy = Inr ''5.0min''"
    by (simp add: finishRe_at_def isFinishChar_def)
  have p: "getMdProgress ?busy = Inr 30" by (simp add: isProgressChar_def)
  have cb: "barCompleted 30 50 = 15" by (simp add: barCompleted_def float64_to_int_def)
  then have r: "barRemaining 30 50 = 34" by (simp add: barRemaining_def)
  from cb r have d: "drawProgressBar (\<lambda>p. ''30.0'') 30 50
       = Inr ''[===============>..................................] 30.0%''"
    by (simp add: drawProgressBar_def Repeat_def numeral_eq_Suc)
  have l: "pollLoop 2 (\<lambda>p. ''30.0'') ?reads 0 [] =
     (Break, 4, [Sleep 100, Print clearScreen, PrintTime, Print ''Reboot will occur in 5.0min'',
       Print ''[===============>..................................] 30.0%''])"
    unfolding numeral_2_eq_2 pollLoop.simps
    by (simp add: c i t p d pollInterval_def del: getMdChecking.simps getMdTimeLeft.simps getMdProgress.simps)
  have l': "pollLoop 1 (\<lambda>p. []) ?reads' 0 [] = (Break, 1, [])"
    unfolding One_nat_def pollLoop.simps
    by (simp add: i del: getMdChecking.simps)
  have f: "getMdChecking (?reads' 1) = Inl FailedToOpen" by simp
  from reboot_only_after_confirmed_idle [of 2 "\<lambda>p. ''30.0''" ?reads False False]
    reboot_only_after_confirmed_idle [of 1 "\<lambda>p. []" ?reads' False False] l l' f
  show ?thesis
    by (simp add: waitForRaidAndReboot_def i del: getMdChecking.simps)
qed

subsection \<open>Ranges\<close>



end
